theory Spec2Isabelle
  imports Main "HOL-Library.Word"
begin

section \<open>The configuration store of osi/src/config.cc\<close>

text \<open>
  A shallow embedding of the INI-like configuration store. C strings are modelled as
  \<open>string\<close> (a list of bytes); a C string never contains the terminating NUL byte, so
  \<open>strcmp(a, b) == 0\<close> is equality of lists. The intrusive \<open>list_t\<close> of the source is
  a HOL list in insertion order. The allocator (\<open>osi_calloc\<close>, \<open>osi_strdup\<close>) aborts the
  process instead of returning NULL, so \<open>section_new\<close> and \<open>entry_new\<close> always succeed.
\<close>

subsection \<open>Data model\<close>

record entry_t =
  key :: string
  "value" :: string

record section_t =
  name :: string
  entries :: "entry_t list"

record config_t =
  sections :: "section_t list"

definition config_new_empty :: config_t where
  "config_new_empty = \<lparr>sections = []\<rparr>"

definition section_new :: "string \<Rightarrow> section_t" where
  "section_new nm = \<lparr>name = nm, entries = []\<rparr>"

definition entry_new :: "string \<Rightarrow> string \<Rightarrow> entry_t" where
  "entry_new k v = \<lparr>key = k, value = v\<rparr>"

subsection \<open>Lookup\<close>

text \<open>The first section whose name compares equal, as the loop of \<open>section_find\<close>.\<close>

fun find_section :: "section_t list \<Rightarrow> string \<Rightarrow> section_t option" where
  "find_section [] s = None"
| "find_section (sec # secs) s = (if name sec = s then Some sec else find_section secs s)"

definition section_find :: "config_t \<Rightarrow> string \<Rightarrow> section_t option" where
  "section_find config s = find_section (sections config) s"

fun find_entry :: "entry_t list \<Rightarrow> string \<Rightarrow> entry_t option" where
  "find_entry [] k = None"
| "find_entry (e # es) k = (if key e = k then Some e else find_entry es k)"

definition entry_find :: "config_t \<Rightarrow> string \<Rightarrow> string \<Rightarrow> entry_t option" where
  "entry_find config s k =
     (case section_find config s of
        None \<Rightarrow> None
      | Some sec \<Rightarrow> find_entry (entries sec) k)"

definition config_has_section :: "config_t \<Rightarrow> string \<Rightarrow> bool" where
  "config_has_section config s = (section_find config s \<noteq> None)"

definition config_has_key :: "config_t \<Rightarrow> string \<Rightarrow> string \<Rightarrow> bool" where
  "config_has_key config s k = (entry_find config s k \<noteq> None)"

definition config_get_string :: "config_t \<Rightarrow> string \<Rightarrow> string \<Rightarrow> string \<Rightarrow> string" where
  "config_get_string config s k def_value =
     (case entry_find config s k of
        None \<Rightarrow> def_value
      | Some e \<Rightarrow> value e)"

subsection \<open>Mutation\<close>

text \<open>
  \<open>value_string.find("\n")\<close> followed by \<open>substr(0, newline_position)\<close>: the text before
  the first newline, or the whole text when there is none.
\<close>

definition value_no_newline :: "string \<Rightarrow> string" where
  "value_no_newline v = takeWhile (\<lambda>c. c \<noteq> CHR ''\<newline>'') v"

text \<open>
  The entry loop of \<open>config_set_string\<close>: the first entry with the key gets the new value
  in place; when no entry has the key, a new entry is appended.
\<close>

fun set_entry :: "entry_t list \<Rightarrow> string \<Rightarrow> string \<Rightarrow> entry_t list" where
  "set_entry [] k v = [entry_new k v]"
| "set_entry (e # es) k v =
     (if key e = k then e\<lparr>value := v\<rparr> # es else e # set_entry es k v)"

text \<open>The update acts on the section that \<open>section_find\<close> returned: the first with the name.\<close>

fun set_in_section :: "section_t list \<Rightarrow> string \<Rightarrow> string \<Rightarrow> string \<Rightarrow> section_t list" where
  "set_in_section [] s k v = []"
| "set_in_section (sec # secs) s k v =
     (if name sec = s then sec\<lparr>entries := set_entry (entries sec) k v\<rparr> # secs
      else sec # set_in_section secs s k v)"

definition config_set_string :: "config_t \<Rightarrow> string \<Rightarrow> string \<Rightarrow> string \<Rightarrow> config_t" where
  "config_set_string config s k v =
     (let secs = (case section_find config s of
                    None \<Rightarrow> sections config @ [section_new s]
                  | Some sec \<Rightarrow> sections config)
      in config\<lparr>sections := set_in_section secs s k (value_no_newline v)\<rparr>)"

definition config_set_bool :: "config_t \<Rightarrow> string \<Rightarrow> string \<Rightarrow> bool \<Rightarrow> config_t" where
  "config_set_bool config s k b = config_set_string config s k (if b then ''true'' else ''false'')"

text \<open>A sequence of \<open>config_set_string\<close> calls, each given as (section, key, value).\<close>

definition set_strings :: "config_t \<Rightarrow> (string \<times> string \<times> string) list \<Rightarrow> config_t" where
  "set_strings config ops = foldl (\<lambda>c (s, k, v). config_set_string c s k v) config ops"

subsection \<open>Uniqueness of section names and of keys\<close>

definition section_names :: "config_t \<Rightarrow> string list" where
  "section_names config = map name (sections config)"

definition section_keys :: "config_t \<Rightarrow> string \<Rightarrow> string list" where
  "section_keys config s =
     (case section_find config s of None \<Rightarrow> [] | Some sec \<Rightarrow> map key (entries sec))"

definition unique_names :: "config_t \<Rightarrow> bool" where
  "unique_names config \<longleftrightarrow>
     distinct (map name (sections config)) \<and>
     list_all (\<lambda>sec. distinct (map key (entries sec))) (sections config)"

text \<open>The entries of a store as (section, key, value) triples, in file order.\<close>

fun triples :: "section_t list \<Rightarrow> (string \<times> string \<times> string) list" where
  "triples [] = []"
| "triples (sec # secs) = map (\<lambda>e. (name sec, key e, value e)) (entries sec) @ triples secs"

definition all_entries :: "config_t \<Rightarrow> (string \<times> string \<times> string) list" where
  "all_entries config = triples (sections config)"

definition at :: "string \<Rightarrow> string \<Rightarrow> string \<times> string \<times> string \<Rightarrow> bool" where
  "at s k t \<longleftrightarrow> fst t = s \<and> fst (snd t) = k"

text \<open>Every entry stored under section name \<open>s\<close> and key \<open>k\<close>, in any section of that name.\<close>

definition entries_at :: "config_t \<Rightarrow> string \<Rightarrow> string \<Rightarrow> (string \<times> string \<times> string) list" where
  "entries_at config s k = filter (at s k) (all_entries config)"

subsection \<open>The numeric conversions of the C library\<close>

text \<open>
  \<open>strtol\<close>, \<open>strtoumax\<close> and \<open>strtoull\<close> are called with base 0. They belong to the C
  library, not to this file; they are modelled after the C standard (7.22.1.4): leading
  white space is skipped, an optional sign is read, a \<open>0x\<close>/\<open>0X\<close> prefix followed by a
  hexadecimal digit selects base 16, another leading \<open>0\<close> selects base 8, anything else
  base 10; then the longest run of digits of that base is converted. When no digit is
  found, no conversion is performed: the result is 0 and the end pointer is the start of
  the text.
\<close>

definition isspace :: "char \<Rightarrow> bool" where
  "isspace c \<longleftrightarrow>
     c = CHR '' '' \<or> c = CHR 0x09 \<or> c = CHR ''\<newline>'' \<or> c = CHR 0x0B \<or> c = CHR 0x0C \<or> c = CHR 0x0D"

definition digit_value :: "char \<Rightarrow> nat option" where
  "digit_value c =
     (let n = (of_char c :: nat) in
      if 48 \<le> n \<and> n \<le> 57 then Some (n - 48)
      else if 97 \<le> n \<and> n \<le> 122 then Some (n - 87)
      else if 65 \<le> n \<and> n \<le> 90 then Some (n - 55)
      else None)"

definition digit_in_base :: "nat \<Rightarrow> char \<Rightarrow> nat option" where
  "digit_in_base b c =
     (case digit_value c of None \<Rightarrow> None | Some d \<Rightarrow> if d < b then Some d else None)"

fun scan_digits :: "nat \<Rightarrow> nat \<Rightarrow> string \<Rightarrow> nat \<times> string" where
  "scan_digits b acc [] = (acc, [])"
| "scan_digits b acc (c # cs) =
     (case digit_in_base b c of
        None \<Rightarrow> (acc, c # cs)
      | Some d \<Rightarrow> scan_digits b (acc * b + d) cs)"

definition scan_sign :: "string \<Rightarrow> bool \<times> string" where
  "scan_sign s =
     (case s of
        [] \<Rightarrow> (False, s)
      | c # t \<Rightarrow> if c = CHR ''-'' then (True, t) else if c = CHR ''+'' then (False, t) else (False, s))"

definition scan_base :: "string \<Rightarrow> nat \<times> string" where
  "scan_base s =
     (case s of
        [] \<Rightarrow> (10, s)
      | z # r \<Rightarrow>
          if z \<noteq> CHR ''0'' then (10, s)
          else (case r of
                  x # h # t \<Rightarrow>
                    if (x = CHR ''x'' \<or> x = CHR ''X'') \<and> digit_in_base 16 h \<noteq> None then (16, h # t)
                    else (8, s)
                | _ \<Rightarrow> (8, s)))"

text \<open>
  The subject sequence: \<open>None\<close> when no conversion is performed, otherwise whether a minus
  sign was read, the magnitude of the digits (unbounded), and the text after the last digit.
\<close>

definition strto :: "string \<Rightarrow> (bool \<times> nat \<times> string) option" where
  "strto s =
     (let (neg, s2) = scan_sign (dropWhile isspace s);
          (b, s3) = scan_base s2
      in case s3 of
           [] \<Rightarrow> None
         | c # t \<Rightarrow>
             if digit_in_base b c = None then None
             else (let (n, rest) = scan_digits b 0 s3 in Some (neg, n, rest)))"

text \<open>
  \<open>strtol\<close> returns a \<open>long\<close> of \<open>lb\<close> bits (32 or 64, by the target) and the end pointer,
  here the text from the end pointer on. A value out of range is clamped to \<open>LONG_MAX\<close> or
  \<open>LONG_MIN\<close>.
\<close>

definition strtol :: "nat \<Rightarrow> string \<Rightarrow> int \<times> string" where
  "strtol lb s =
     (case strto s of
        None \<Rightarrow> (0, s)
      | Some (neg, n, rest) \<Rightarrow>
          (if neg then (if 2 ^ (lb - 1) < int n then - (2 ^ (lb - 1)) else - int n)
           else (if 2 ^ (lb - 1) - 1 < int n then 2 ^ (lb - 1) - 1 else int n), rest))"

text \<open>
  \<open>strtoumax\<close> and \<open>strtoull\<close> return a 64-bit unsigned value: \<open>UINTMAX_MAX\<close> when the
  magnitude is out of range, otherwise the magnitude, negated in the unsigned type after a
  minus sign.
\<close>

definition strtoumax :: "string \<Rightarrow> 64 word \<times> string" where
  "strtoumax s =
     (case strto s of
        None \<Rightarrow> (0, s)
      | Some (neg, n, rest) \<Rightarrow>
          (if 2 ^ 64 - 1 < n then - 1 else if neg then - word_of_nat n else word_of_nat n, rest))"

definition strtoull :: "string \<Rightarrow> 64 word \<times> string" where
  "strtoull s = strtoumax s"

subsection \<open>Numeric getters\<close>

text \<open>
  \<open>int ret = strtol(entry->value, &endptr, 0)\<close> converts the \<open>long\<close> to the 32-bit \<open>int\<close>
  by keeping its low 32 bits; the result is read as two's complement by \<open>sint\<close>. The test
  \<open>*endptr == '\0'\<close> is that no text is left at the end pointer.
\<close>

definition config_get_int :: "nat \<Rightarrow> config_t \<Rightarrow> string \<Rightarrow> string \<Rightarrow> 32 word \<Rightarrow> 32 word" where
  "config_get_int lb config s k def_value =
     (case entry_find config s k of
        None \<Rightarrow> def_value
      | Some e \<Rightarrow>
          (let (ret, endptr) = strtol lb (value e)
           in if endptr = [] then word_of_int ret else def_value))"

definition config_get_uint16 :: "config_t \<Rightarrow> string \<Rightarrow> string \<Rightarrow> 16 word \<Rightarrow> 16 word" where
  "config_get_uint16 config s k def_value =
     (case entry_find config s k of
        None \<Rightarrow> def_value
      | Some e \<Rightarrow>
          (let (ret, endptr) = strtoumax (value e)
           in if endptr = [] then ucast ret else def_value))"

definition config_get_uint64 :: "config_t \<Rightarrow> string \<Rightarrow> string \<Rightarrow> 64 word \<Rightarrow> 64 word" where
  "config_get_uint64 config s k def_value =
     (case entry_find config s k of
        None \<Rightarrow> def_value
      | Some e \<Rightarrow>
          (let (ret, endptr) = strtoull (value e)
           in if endptr = [] then ret else def_value))"

definition config_get_bool :: "config_t \<Rightarrow> string \<Rightarrow> string \<Rightarrow> bool \<Rightarrow> bool" where
  "config_get_bool config s k def_value =
     (case entry_find config s k of
        None \<Rightarrow> def_value
      | Some e \<Rightarrow>
          if value e = ''true'' then True
          else if value e = ''false'' then False
          else def_value)"

text \<open>
  The integer that a stored text denotes (sign and digits in the detected base, without any
  bound), and the part of the text that the conversion does not consume.
\<close>

definition denoted :: "string \<Rightarrow> int" where
  "denoted s = (case strto s of None \<Rightarrow> 0 | Some (neg, n, rest) \<Rightarrow> if neg then - int n else int n)"

definition unconsumed :: "string \<Rightarrow> string" where
  "unconsumed s = (case strto s of None \<Rightarrow> s | Some (neg, n, rest) \<Rightarrow> rest)"

subsection \<open>Serialization\<close>

text \<open>
  The section loop of \<open>config_save\<close>. Each \<open>fprintf\<close> and \<open>fputc\<close> is one write; the
  writes are listed in order. A section whose name begins with \<open>#\<close> is written as the name
  alone, any other as \<open>[name]\<close> and a newline; every entry as \<open>key = value\<close> and a newline;
  a single newline follows each section but the last.
\<close>

definition is_comment_name :: "string \<Rightarrow> bool" where
  "is_comment_name nm = (case nm of [] \<Rightarrow> False | c # cs \<Rightarrow> c = CHR ''#'')"

definition section_header :: "section_t \<Rightarrow> string" where
  "section_header sec =
     (if is_comment_name (name sec) then name sec
      else ''['' @ name sec @ '']'' @ [CHR ''\<newline>''])"

definition entry_line :: "entry_t \<Rightarrow> string" where
  "entry_line e = key e @ '' = '' @ value e @ [CHR ''\<newline>'']"

fun config_writes :: "section_t list \<Rightarrow> string list" where
  "config_writes [] = []"
| "config_writes (sec # secs) =
     section_header sec # map entry_line (entries sec)
       @ (if secs \<noteq> [] then [''\<newline>''] else [])
       @ config_writes secs"

definition config_text :: "config_t \<Rightarrow> string" where
  "config_text config = concat (config_writes (sections config))"

subsection \<open>Saving to a file\<close>

text \<open>
  The file system is a map from paths to files. Every system call of \<open>config_save\<close> that
  can fail is a step; the parameter \<open>fails\<close> says which steps fail in a run (\<open>Write i\<close> is
  the \<open>i\<close>-th write to the temporary file). \<open>unlink\<close> removes the file when it exists. A file
  created by \<open>fopen\<close> gets mode 0666 (the umask is not modelled); \<open>chmod\<close> sets 0660.
\<close>

record file_t =
  content :: string
  mode :: nat

type_synonym filesystem = "string \<rightharpoonup> file_t"

datatype step =
  Dirname | DirOpen | TempOpen | Write nat | FileSync | FileClose | Chmod | Rename
  | DirSync | DirClose

datatype log_msg = LOG_ERROR step | LOG_WARN step

definition temp_filename :: "string \<Rightarrow> string" where
  "temp_filename filename = filename @ ''.new''"

definition unlink :: "string \<Rightarrow> filesystem \<Rightarrow> filesystem" where
  "unlink path fs = fs(path := None)"

definition fopen_wt :: "string \<Rightarrow> filesystem \<Rightarrow> filesystem" where
  "fopen_wt path fs =
     (case fs path of
        None \<Rightarrow> fs(path \<mapsto> \<lparr>content = [], mode = 438\<rparr>)
      | Some f \<Rightarrow> fs(path \<mapsto> f\<lparr>content := []\<rparr>))"

definition append_file :: "string \<Rightarrow> string \<Rightarrow> filesystem \<Rightarrow> filesystem" where
  "append_file path txt fs =
     (case fs path of
        None \<Rightarrow> fs
      | Some f \<Rightarrow> fs(path \<mapsto> f\<lparr>content := content f @ txt\<rparr>))"

definition chmod :: "string \<Rightarrow> nat \<Rightarrow> filesystem \<Rightarrow> filesystem" where
  "chmod path m fs =
     (case fs path of
        None \<Rightarrow> fs
      | Some f \<Rightarrow> fs(path \<mapsto> f\<lparr>mode := m\<rparr>))"

definition rename :: "string \<Rightarrow> string \<Rightarrow> filesystem \<Rightarrow> filesystem" where
  "rename old new fs = (fs(new := fs old))(old := None)"

text \<open>
  The writes in order, numbered from \<open>i\<close>; the first failing write stops the loop
  (\<open>goto error\<close>). The result is the failed step, if any, and the file system.
\<close>

fun write_all ::
  "(step \<Rightarrow> bool) \<Rightarrow> string \<Rightarrow> nat \<Rightarrow> string list \<Rightarrow> filesystem \<Rightarrow> step option \<times> filesystem" where
  "write_all fails path i [] fs = (None, fs)"
| "write_all fails path i (w # ws) fs =
     (if fails (Write i) then (Some (Write i), fs)
      else write_all fails path (Suc i) ws (append_file path w fs))"

text \<open>
  The outcome of a run of \<open>config_save\<close>: it returns a value, having logged messages and
  left a file system, or it reaches undefined behaviour, after which nothing is known.
\<close>

datatype save_result = Returned bool "log_msg list" filesystem | Undefined



text \<open>
  \<open>config_save\<close>. The failure of \<open>fsync\<close> on the temporary file and on the directory is
  logged with \<open>LOG_WARN\<close> and the run goes on; every other failure is logged with
  \<open>LOG_ERROR\<close> and jumps to \<open>error:\<close>, which unlinks the temporary file, closes what is
  open and returns false. After a failing \<open>fclose(fp)\<close> the assignment \<open>fp = NULL\<close> is not
  reached, so that \<open>if (fp) fclose(fp);\<close> at \<open>error:\<close> closes the stream a second time:
  undefined behaviour. After a failing \<open>close(dir_fd)\<close> the \<open>rename\<close> has already replaced
  the target; \<open>error:\<close> then unlinks a temporary file that no longer exists and calls
  \<open>close\<close> on the descriptor again, neither of which changes a file.
\<close>

definition config_save ::
  "(step \<Rightarrow> bool) \<Rightarrow> config_t \<Rightarrow> string \<Rightarrow> filesystem \<Rightarrow> save_result" where
  "config_save fails config filename fs =
     (let temp = temp_filename filename in
      if fails Dirname then Returned False [LOG_ERROR Dirname] (unlink temp fs)
      else if fails DirOpen then Returned False [LOG_ERROR DirOpen] (unlink temp fs)
      else if fails TempOpen then Returned False [LOG_ERROR TempOpen] (unlink temp fs)
      else
        (case write_all fails temp 0 (config_writes (sections config)) (fopen_wt temp fs) of
           (Some failed, fs1) \<Rightarrow> Returned False [LOG_ERROR failed] (unlink temp fs1)
         | (None, fs1) \<Rightarrow>
             (let log1 = (if fails FileSync then [LOG_WARN FileSync] else [])
              in if fails FileClose then Undefined
                 else if fails Chmod then Returned False (log1 @ [LOG_ERROR Chmod]) (unlink temp fs1)
                 else if fails Rename then Returned False (log1 @ [LOG_ERROR Rename]) (unlink temp fs1)
                 else
                   (let fs2 = rename temp filename (chmod temp 432 fs1);
                        log2 = log1 @ (if fails DirSync then [LOG_WARN DirSync] else [])
                    in if fails DirClose
                       then Returned False (log2 @ [LOG_ERROR DirClose]) (unlink temp fs2)
                       else Returned True log2 fs2))))"

subsection \<open>Parsing\<close>

text \<open>
  The stream is the list of bytes not yet read. \<open>fgets(line, n, fp)\<close> reads at most
  \<open>n - 1\<close> bytes and stops after a newline; at end of file with nothing read it returns
  NULL. The string functions see the buffer up to its first NUL byte.
\<close>

fun fgets_chars :: "nat \<Rightarrow> string \<Rightarrow> string \<times> string" where
  "fgets_chars 0 fp = ([], fp)"
| "fgets_chars (Suc n) [] = ([], [])"
| "fgets_chars (Suc n) (c # fp) =
     (if c = CHR ''\<newline>'' then ([c], fp)
      else (let (l, r) = fgets_chars n fp in (c # l, r)))"

definition fgets :: "nat \<Rightarrow> string \<Rightarrow> (string \<times> string) option" where
  "fgets n fp = (if fp = [] then None else Some (fgets_chars (n - 1) fp))"

definition c_str :: "string \<Rightarrow> string" where
  "c_str buf = takeWhile (\<lambda>c. c \<noteq> CHR 0x00) buf"

text \<open>
  \<open>trim\<close> returns the text from the first character that is not white space up to the
  last one that is not; it ends the buffer there by writing a NUL, unless the text is all
  white space, which it leaves as it is. \<open>trim_buffer\<close> is the buffer afterwards, as
  \<open>strlen(line)\<close> sees it from its start.
\<close>

definition trim :: "string \<Rightarrow> string" where
  "trim str = rev (dropWhile isspace (rev (dropWhile isspace str)))"

definition trim_buffer :: "string \<Rightarrow> string" where
  "trim_buffer str =
     (if dropWhile isspace str = [] then str else takeWhile isspace str @ trim str)"

text \<open>\<open>while (((ch = fgetc(fp)) != EOF) && (ch != '\n'));\<close>\<close>

definition skip_to_newline :: "string \<Rightarrow> string" where
  "skip_to_newline fp = drop 1 (dropWhile (\<lambda>c. c \<noteq> CHR ''\<newline>'') fp)"

record parse_state =
  cur_config :: config_t
  cur_section :: string
  skip_entries :: bool

text \<open>\<open>strchr(line_ptr, '=')\<close> and \<open>*split = '\0'\<close>: the text before and after the first \<open>=\<close>.\<close>

definition split_at_equals :: "string \<Rightarrow> (string \<times> string) option" where
  "split_at_equals line_ptr =
     (if CHR ''='' \<in> set line_ptr
      then Some (takeWhile (\<lambda>c. c \<noteq> CHR ''='') line_ptr,
                 drop 1 (dropWhile (\<lambda>c. c \<noteq> CHR ''='') line_ptr))
      else None)"

text \<open>
  The body of the loop of \<open>config_parse\<close> from \<open>// Skip blanks.\<close> on, for the trimmed
  line \<open>line_ptr\<close>.
\<close>

definition parse_line :: "string \<Rightarrow> parse_state \<Rightarrow> parse_state" where
  "parse_line line_ptr st =
     (case line_ptr of
        [] \<Rightarrow> st
      | c # cs \<Rightarrow>
          if c = CHR ''#'' then
            (let comment = take 1023 line_ptr in
             case section_find (cur_config st) comment of
               None \<Rightarrow>
                 st\<lparr>cur_config :=
                      (cur_config st)\<lparr>sections := sections (cur_config st) @ [section_new comment]\<rparr>\<rparr>
             | Some sec \<Rightarrow> st)
          else if c = CHR ''['' then
            (if last line_ptr \<noteq> CHR '']'' then st\<lparr>skip_entries := True\<rparr>
             else st\<lparr>cur_section := take (length line_ptr - 2) cs, skip_entries := False\<rparr>)
          else if skip_entries st then st
          else
            (case split_at_equals line_ptr of
               None \<Rightarrow> st
             | Some (k, v) \<Rightarrow>
                 st\<lparr>cur_config :=
                      config_set_string (cur_config st) (cur_section st) (trim k) (trim v)\<rparr>))"

function config_parse_loop :: "string \<Rightarrow> parse_state \<Rightarrow> parse_state" where
  "config_parse_loop fp st =
     (case fgets 1024 fp of
        None \<Rightarrow> st
      | Some (raw, fp') \<Rightarrow>
          (let line = c_str raw; line_ptr = trim line in
           if length (trim_buffer line) = 1023 then config_parse_loop (skip_to_newline fp') st
           else config_parse_loop fp' (parse_line line_ptr st)))"
  by pat_completeness auto
termination
proof (relation "measure (\<lambda>(fp, st). length fp)")
  have len: "length (snd (fgets_chars n fp)) \<le> length fp" for n fp
    by (induction n fp rule: fgets_chars.induct) (auto split: prod.splits)
  have step: "length (snd (fgets_chars (Suc n) (c # cs))) < length (c # cs)" for n c cs
    using len [of n cs] by (auto split: prod.splits simp: less_Suc_eq_le)
  have shorter: "length fp' < length fp" if "fgets 1024 fp = Some (raw, fp')" for fp raw fp'
  proof (cases fp)
    case Nil
    with that show ?thesis by (simp add: fgets_def)
  next
    case (Cons c cs)
    have "(1024::nat) - 1 = Suc 1022" by simp
    with that Cons have "fp' = snd (fgets_chars (Suc 1022) (c # cs))"
      by (simp add: fgets_def del: fgets_chars.simps)
    with step [of 1022 c cs] Cons show ?thesis by simp
  qed
  have skip: "length (skip_to_newline fp) \<le> length fp" for fp
    using length_dropWhile_le [of "\<lambda>c. c \<noteq> CHR ''\<newline>''" fp]
    by (simp add: skip_to_newline_def)
  {
    fix fp :: string and st :: parse_state and x2 raw fp'
    assume "fgets 1024 fp = Some x2" "(raw, fp') = x2"
    then have "length fp' < length fp"
      using shorter [of fp raw fp'] by simp
    with skip [of fp']
    show "((skip_to_newline fp', st), fp, st) \<in> measure (\<lambda>(fp, st). length fp)"
      by simp
  next
    fix fp :: string and st :: parse_state and x2 raw fp' and line_ptr :: string
    assume "fgets 1024 fp = Some x2" "(raw, fp') = x2"
    then have "length fp' < length fp"
      using shorter [of fp raw fp'] by simp
    then show "((fp', parse_line line_ptr st), fp, st) \<in> measure (\<lambda>(fp, st). length fp)"
      by simp
  }
qed simp

text \<open>
  The lines that the loop hands to its body, in order: the same reading and the same length
  test, with the trimmed line kept instead of parsed.
\<close>

function parsed_lines :: "string \<Rightarrow> string list" where
  "parsed_lines fp =
     (case fgets 1024 fp of
        None \<Rightarrow> []
      | Some (raw, fp') \<Rightarrow>
          (let line = c_str raw; line_ptr = trim line in
           if length (trim_buffer line) = 1023 then parsed_lines (skip_to_newline fp')
           else line_ptr # parsed_lines fp'))"
  by pat_completeness auto
termination
proof (relation "measure length")
  have len: "length (snd (fgets_chars n fp)) \<le> length fp" for n fp
    by (induction n fp rule: fgets_chars.induct) (auto split: prod.splits)
  have step: "length (snd (fgets_chars (Suc n) (c # cs))) < length (c # cs)" for n c cs
    using len [of n cs] by (auto split: prod.splits simp: less_Suc_eq_le)
  have shorter: "length fp' < length fp" if "fgets 1024 fp = Some (raw, fp')" for fp raw fp'
  proof (cases fp)
    case Nil
    with that show ?thesis by (simp add: fgets_def)
  next
    case (Cons c cs)
    have "(1024::nat) - 1 = Suc 1022" by simp
    with that Cons have "fp' = snd (fgets_chars (Suc 1022) (c # cs))"
      by (simp add: fgets_def del: fgets_chars.simps)
    with step [of 1022 c cs] Cons show ?thesis by simp
  qed
  have skip: "length (skip_to_newline fp) \<le> length fp" for fp
    using length_dropWhile_le [of "\<lambda>c. c \<noteq> CHR ''\<newline>''" fp]
    by (simp add: skip_to_newline_def)
  {
    fix fp :: string and x2 raw fp'
    assume "fgets 1024 fp = Some x2" "(raw, fp') = x2"
    then have "length fp' < length fp"
      using shorter [of fp raw fp'] by simp
    with skip [of fp'] show "(skip_to_newline fp', fp) \<in> measure length"
      by simp
  next
    fix fp :: string and x2 raw fp'
    assume "fgets 1024 fp = Some x2" "(raw, fp') = x2"
    then have "length fp' < length fp"
      using shorter [of fp raw fp'] by simp
    then show "(fp', fp) \<in> measure length"
      by simp
  }
qed simp

text \<open>
  \<open>config_parse\<close> starts in the default section \<open>CONFIG_DEFAULT_SECTION\<close>, a constant of
  \<open>config.h\<close> that is taken as the parameter \<open>default_section\<close>, and always returns true.
  \<open>config_new\<close> fails only when the file cannot be opened.
\<close>

definition config_parse :: "string \<Rightarrow> string \<Rightarrow> config_t \<Rightarrow> config_t" where
  "config_parse default_section fp config =
     cur_config (config_parse_loop fp
       \<lparr>cur_config = config, cur_section = default_section, skip_entries = False\<rparr>)"

definition config_new :: "string \<Rightarrow> filesystem \<Rightarrow> string \<Rightarrow> config_t option" where
  "config_new default_section fs filename =
     (case fs filename of
        None \<Rightarrow> None
      | Some f \<Rightarrow> Some (config_parse default_section (content f) config_new_empty))"

text \<open>The state machine over a list of trimmed lines.\<close>

definition parse_lines :: "string list \<Rightarrow> parse_state \<Rightarrow> parse_state" where
  "parse_lines ls st = foldl (\<lambda>st l. parse_line l st) st ls"

definition well_formed_header :: "string \<Rightarrow> bool" where
  "well_formed_header l = (case l of [] \<Rightarrow> False | c # cs \<Rightarrow> c = CHR ''['' \<and> last l = CHR '']'')"

definition malformed_header :: "string \<Rightarrow> bool" where
  "malformed_header l = (case l of [] \<Rightarrow> False | c # cs \<Rightarrow> c = CHR ''['' \<and> last l \<noteq> CHR '']'')"

text \<open>The text of one section: its header and its entry lines.\<close>

definition section_text :: "section_t \<Rightarrow> string" where
  "section_text sec = section_header sec @ concat (map entry_line (entries sec))"

text \<open>
  \<open>fails_before_commit\<close>: a step fails whose failure keeps \<open>config_save\<close> from completing
  the \<open>rename\<close>. The first such failure is either the failing close of the temporary file
  (\<open>fails_at_file_close\<close>) or another step (\<open>fails_cleanly\<close>).
\<close>

definition write_fails :: "(step \<Rightarrow> bool) \<Rightarrow> config_t \<Rightarrow> bool" where
  "write_fails fails config =
     list_ex (\<lambda>i. fails (Write i)) [0..<length (config_writes (sections config))]"

definition fails_before_commit :: "(step \<Rightarrow> bool) \<Rightarrow> config_t \<Rightarrow> bool" where
  "fails_before_commit fails config \<longleftrightarrow>
     fails Dirname \<or> fails DirOpen \<or> fails TempOpen \<or> write_fails fails config
     \<or> fails FileClose \<or> fails Chmod \<or> fails Rename"



text \<open>
  A line, given without its newline, that \<open>fgets\<close> reads whole and that passes the length
  test of \<open>config_parse\<close>: it has no NUL byte and at most 1022 characters and is not made of
  1022 white-space characters. \<open>unlines\<close> is the stream that holds the lines, each ended by
  a newline.
\<close>

definition short_line :: "string \<Rightarrow> bool" where
  "short_line l \<longleftrightarrow>
     CHR ''\<newline>'' \<notin> set l \<and> CHR 0x00 \<notin> set l \<and> length l \<le> 1022
     \<and> \<not> (length l = 1022 \<and> dropWhile isspace l = [])"

definition unlines :: "string list \<Rightarrow> string" where
  "unlines ls = concat (map (\<lambda>l. l @ [CHR ''\<newline>'']) ls)"

text \<open>
  The second store is the first one with only comment pseudo-sections, without entries,
  appended.
\<close>

definition only_comments_added :: "config_t \<Rightarrow> config_t \<Rightarrow> bool" where
  "only_comments_added config config' \<longleftrightarrow>
     take (length (sections config)) (sections config') = sections config
     \<and> list_all (\<lambda>sec. entries sec = [] \<and> is_comment_name (name sec))
          (drop (length (sections config)) (sections config'))"

subsection \<open>Stores that the text format can hold\<close>

text \<open>
  The parser trims keys and values, splits a line at its first \<open>=\<close>, reads a line that
  starts with \<open>#\<close> or \<open>[\<close> as a comment or a header, and drops long lines. A store is
  \<open>plain\<close> when none of this changes it: section names have no newline, do not start with
  \<open>#\<close> and fit a line; keys have no newline and no \<open>=\<close>, no white space at either end, and
  do not start with \<open>#\<close> or \<open>[\<close>; values have no newline and no white space at either end;
  key and value fit a line; every section has an entry; names and keys are unique. No string
  has a NUL byte, as no C string has.
\<close>

definition plain_section :: "string \<Rightarrow> bool" where
  "plain_section nm \<longleftrightarrow>
     CHR ''\<newline>'' \<notin> set nm \<and> CHR 0x00 \<notin> set nm \<and> \<not> is_comment_name nm \<and> length nm \<le> 1020"

definition plain_key :: "string \<Rightarrow> bool" where
  "plain_key k \<longleftrightarrow>
     CHR ''\<newline>'' \<notin> set k \<and> CHR 0x00 \<notin> set k \<and> CHR ''='' \<notin> set k \<and> trim k = k
     \<and> (case k of [] \<Rightarrow> True | c # cs \<Rightarrow> c \<noteq> CHR ''#'' \<and> c \<noteq> CHR ''['')"

definition plain_value :: "string \<Rightarrow> bool" where
  "plain_value v \<longleftrightarrow> CHR ''\<newline>'' \<notin> set v \<and> CHR 0x00 \<notin> set v \<and> trim v = v"

definition plain_entry :: "entry_t \<Rightarrow> bool" where
  "plain_entry e \<longleftrightarrow>
     plain_key (key e) \<and> plain_value (value e) \<and> length (key e) + length (value e) + 3 \<le> 1022"

definition plain_store :: "config_t \<Rightarrow> bool" where
  "plain_store config \<longleftrightarrow>
     unique_names config
     \<and> list_all (\<lambda>sec. plain_section (name sec) \<and> entries sec \<noteq> []
                        \<and> list_all plain_entry (entries sec)) (sections config)"

text \<open>The lines of the saved text of a store without comment pseudo-sections.\<close>

definition entry_text :: "entry_t \<Rightarrow> string" where
  "entry_text e = key e @ '' = '' @ value e"

definition header_text :: "section_t \<Rightarrow> string" where
  "header_text sec = ''['' @ name sec @ '']''"

fun store_lines :: "section_t list \<Rightarrow> string list" where
  "store_lines [] = []"
| "store_lines (sec # secs) =
     header_text sec # map entry_text (entries sec)
       @ (if secs \<noteq> [] then [''''] else [])
       @ store_lines secs"







section \<open>Properties of set and get\<close>

lemma find_entry_set_entry_same: "find_entry (set_entry es k v) k = Some \<lparr>key = k, value = v\<rparr>"
  by (induction es) (auto simp: entry_new_def)

lemma find_section_set_in_section:
  "find_section secs s = Some sec \<Longrightarrow>
   find_section (set_in_section secs s k v) s = Some (sec\<lparr>entries := set_entry (entries sec) k v\<rparr>)"
  by (induction secs) auto

lemma find_section_append_new:
  "find_section secs s = None \<Longrightarrow> find_section (secs @ [section_new s]) s = Some (section_new s)"
  by (induction secs) (auto simp: section_new_def)

lemma entry_find_set_string:
  "entry_find (config_set_string config s k v) s k = Some \<lparr>key = k, value = value_no_newline v\<rparr>"
proof (cases "section_find config s")
  case None
  then have "find_section (sections config @ [section_new s]) s = Some (section_new s)"
    by (simp add: section_find_def find_section_append_new)
  from find_section_set_in_section [OF this] None show ?thesis
    by (simp add: entry_find_def section_find_def config_set_string_def find_entry_set_entry_same)
next
  case (Some sec)
  then have "find_section (sections config) s = Some sec"
    by (simp add: section_find_def)
  from find_section_set_in_section [OF this] Some show ?thesis
    by (simp add: entry_find_def section_find_def config_set_string_def find_entry_set_entry_same)
qed

lemma value_no_newline_free: "CHR ''\<newline>'' \<notin> set (value_no_newline v)"
  by (induction v) (auto simp: value_no_newline_def)

lemma value_no_newline_id: "CHR ''\<newline>'' \<notin> set v \<Longrightarrow> value_no_newline v = v"
  by (induction v) (auto simp: value_no_newline_def)

lemma value_no_newline_prefix:
  "value_no_newline (a @ CHR ''\<newline>'' # b) = value_no_newline a"
  by (induction a) (auto simp: value_no_newline_def)

text \<open>
  C3. \<open>config_set_string\<close> stores the text of the value that precedes its first newline
  (for a value \<open>a @ newline # b\<close> with no newline in \<open>a\<close> that is \<open>a\<close>), a value without
  a newline is stored unchanged, and \<open>config_get_string\<close> on the same section and key then
  returns the stored text, whatever the default.
\<close>

theorem set_string_truncates_at_newline:
  "config_get_string (config_set_string config s k v) s k def_value = value_no_newline v
   \<and> (CHR ''\<newline>'' \<notin> set a \<longrightarrow>
        config_get_string (config_set_string config s k (a @ CHR ''\<newline>'' # b)) s k def_value = a)
   \<and> (CHR ''\<newline>'' \<notin> set v \<longrightarrow>
        config_get_string (config_set_string config s k v) s k def_value = v)"
  by (simp add: config_get_string_def entry_find_set_string value_no_newline_id
      value_no_newline_prefix)

theorem set_string_truncates_at_newline_witness:
  "config_get_string (config_set_string config_new_empty ''s'' ''k'' ''a\<newline>b'') ''s'' ''k'' ''d'' = ''a''
   \<and> config_get_string (config_set_string config_new_empty ''s'' ''k'' ''ab'') ''s'' ''k'' ''d'' = ''ab''"
proof -
  have h: "CHR ''\<newline>'' \<notin> set ''a''" and h': "CHR ''\<newline>'' \<notin> set ''ab''"
    by simp_all
  from set_string_truncates_at_newline
    [of config_new_empty "''s''" "''k''" "''ab''" "''d''" "''a''" "''b''"] h h'
  show ?thesis by (simp add: value_no_newline_def)
qed

lemma map_key_set_entry:
  "map key (set_entry es k v) = (if k \<in> set (map key es) then map key es else map key es @ [k])"
  by (induction es) (auto simp: entry_new_def)

lemma map_name_set_in_section: "map name (set_in_section secs s k v) = map name secs"
  by (induction secs) auto

lemma distinct_keys_set_entry: "distinct (map key es) \<Longrightarrow> distinct (map key (set_entry es k v))"
  by (simp add: map_key_set_entry)

lemma keys_distinct_set_in_section:
  "list_all (\<lambda>sec. distinct (map key (entries sec))) secs \<Longrightarrow>
   list_all (\<lambda>sec. distinct (map key (entries sec))) (set_in_section secs s k v)"
  by (induction secs) (auto simp: distinct_keys_set_entry)

lemma find_section_None_iff: "find_section secs s = None \<longleftrightarrow> s \<notin> set (map name secs)"
  by (induction secs) auto

lemma unique_names_set_string:
  "unique_names config \<Longrightarrow> unique_names (config_set_string config s k v)"
  by (auto simp: unique_names_def config_set_string_def section_find_def map_name_set_in_section
      find_section_None_iff section_new_def intro!: keys_distinct_set_in_section split: option.splits)

lemma section_names_set_string:
  "section_names (config_set_string config s k v) =
     (if s \<in> set (section_names config) then section_names config else section_names config @ [s])"
  using find_section_None_iff [of "sections config" s]
  by (auto simp: section_names_def config_set_string_def section_find_def map_name_set_in_section
      section_new_def split: option.splits)

lemma section_keys_set_string:
  "section_keys (config_set_string config s k v) s =
     (if k \<in> set (section_keys config s) then section_keys config s else section_keys config s @ [k])"
proof (cases "section_find config s")
  case None
  then have "find_section (sections config @ [section_new s]) s = Some (section_new s)"
    by (simp add: section_find_def find_section_append_new)
  from find_section_set_in_section [OF this] None show ?thesis
    by (simp add: section_keys_def section_find_def config_set_string_def map_key_set_entry section_new_def entry_new_def)
next
  case (Some sec)
  then have "find_section (sections config) s = Some sec"
    by (simp add: section_find_def)
  from find_section_set_in_section [OF this] Some show ?thesis
    by (simp add: section_keys_def section_find_def config_set_string_def map_key_set_entry)
qed


lemma find_section_set_in_section_other:
  "s' \<noteq> s \<Longrightarrow> find_section (set_in_section secs s' k v) s = find_section secs s"
  by (induction secs) auto

lemma find_section_append_other:
  "s' \<noteq> s \<Longrightarrow> find_section (secs @ [section_new s']) s = find_section secs s"
  by (induction secs) (auto simp: section_new_def)

lemma section_keys_set_string_other:
  "s' \<noteq> s \<Longrightarrow> section_keys (config_set_string config s' k v) s = section_keys config s"
  by (simp add: section_keys_def section_find_def config_set_string_def
      find_section_set_in_section_other find_section_append_other split: option.splits)

lemma all_entries_triples: "all_entries config = triples (sections config)"
  by (simp add: all_entries_def)

lemma triples_append: "triples (xs @ ys) = triples xs @ triples ys"
  by (induction xs) auto

lemma filter_at_set_entry_same:
  "distinct (map key es) \<Longrightarrow>
   filter (at s k) (map (\<lambda>e. (s, key e, value e)) (set_entry es k v)) = [(s, k, v)]"
  by (induction es) (auto simp: entry_new_def filter_empty_conv at_def image_iff)

lemma filter_at_set_entry_other:
  "(s', k') \<noteq> (s, k) \<Longrightarrow>
   filter (at s k) (map (\<lambda>e. (s', key e, value e)) (set_entry es k' v)) =
   filter (at s k) (map (\<lambda>e. (s', key e, value e)) es)"
  by (induction es) (auto simp: entry_new_def at_def)

lemma filter_at_absent: "s \<notin> set (map name secs) \<Longrightarrow> filter (at s k) (triples secs) = []"
  by (induction secs) (auto simp: filter_empty_conv at_def)

lemma filter_at_set_in_section_same:
  "distinct (map name secs) \<Longrightarrow> list_all (\<lambda>sec. distinct (map key (entries sec))) secs \<Longrightarrow>
   s \<in> set (map name secs) \<Longrightarrow>
   filter (at s k) (triples (set_in_section secs s k v)) = [(s, k, v)]"
proof (induction secs)
  case Nil
  then show ?case by simp
next
  case (Cons sec secs)
  show ?case
  proof (cases "name sec = s")
    case True
    with Cons.prems have "s \<notin> set (map name secs)" by auto
    then have "filter (at s k) (triples secs) = []" by (rule filter_at_absent)
    moreover from Cons.prems have "distinct (map key (entries sec))" by simp
    ultimately show ?thesis using True by (simp add: filter_at_set_entry_same)
  next
    case False
    then have "filter (at s k) (map (\<lambda>e. (name sec, key e, value e)) (entries sec)) = []"
      by (auto simp: filter_empty_conv at_def)
    with False Cons show ?thesis by auto
  qed
qed

lemma filter_at_set_in_section_other:
  "(s', k') \<noteq> (s, k) \<Longrightarrow>
   filter (at s k) (triples (set_in_section secs s' k' v)) = filter (at s k) (triples secs)"
  by (induction secs) (auto simp: filter_at_set_entry_other)

lemma entries_at_set_string_same:
  assumes "unique_names config"
  shows "entries_at (config_set_string config s k v) s k = [(s, k, value_no_newline v)]"
proof -
  let ?secs = "case section_find config s of None \<Rightarrow> sections config @ [section_new s]
               | Some sec \<Rightarrow> sections config"
  from assms have "distinct (map name ?secs)"
    using find_section_None_iff [of "sections config" s]
    by (auto simp: unique_names_def section_find_def section_new_def split: option.splits)
  moreover from assms have "list_all (\<lambda>sec. distinct (map key (entries sec))) ?secs"
    by (auto simp: unique_names_def section_new_def split: option.splits)
  moreover have "s \<in> set (map name ?secs)"
    using find_section_None_iff [of "sections config" s]
    by (auto simp: section_find_def section_new_def split: option.splits)
  ultimately show ?thesis
    by (simp add: entries_at_def all_entries_triples config_set_string_def
        filter_at_set_in_section_same)
qed

lemma entries_at_set_string_other:
  "(s', k') \<noteq> (s, k) \<Longrightarrow>
   entries_at (config_set_string config s' k' v) s k = entries_at config s k"
  by (auto simp: entries_at_def all_entries_triples config_set_string_def filter_at_set_in_section_other
      triples_append section_new_def split: option.splits)

lemma unique_names_set_strings: "unique_names config \<Longrightarrow> unique_names (set_strings config ops)"
  unfolding set_strings_def
  by (induction ops arbitrary: config) (auto simp: unique_names_set_string)

lemma set_strings_append: "set_strings config (xs @ ys) = set_strings (set_strings config xs) ys"
  by (simp add: set_strings_def)

lemma entries_at_set_strings_other:
  "\<forall>(s', k', v') \<in> set ops. (s', k') \<noteq> (s, k) \<Longrightarrow>
   entries_at (set_strings config ops) s k = entries_at config s k"
  unfolding set_strings_def
  by (induction ops arbitrary: config) (auto simp: entries_at_set_string_other)


text \<open>
  C4. Starting from a store whose section names and keys are unique (the empty store is
  one), any sequence of \<open>config_set_string\<close> calls leaves section names unique and keys
  unique within each section. A set on an existing section name leaves the list of section
  names as it is, and otherwise appends the name; a set on an existing key leaves the
  section's list of keys as it is (the value is replaced in place), and otherwise appends
  the key; the keys of other sections do not change. After the calls, exactly one entry is
  stored under a (section, key) pair that was set, and its value is the stored (newline-free)
  form of the value set last for that pair.
\<close>

theorem set_string_keeps_names_and_keys_unique:
  assumes "unique_names config"
  shows "unique_names (set_strings config ops)
    \<and> section_names (config_set_string config s k v) =
        (if s \<in> set (section_names config) then section_names config
         else section_names config @ [s])
    \<and> section_keys (config_set_string config s k v) s =
        (if k \<in> set (section_keys config s) then section_keys config s
         else section_keys config s @ [k])
    \<and> (s' \<noteq> s \<longrightarrow> section_keys (config_set_string config s k v) s' = section_keys config s')
    \<and> ((\<forall>(s', k', v') \<in> set later. (s', k') \<noteq> (s, k)) \<longrightarrow>
        entries_at (set_strings config (earlier @ (s, k, v) # later)) s k =
          [(s, k, value_no_newline v)])"
proof -
  have "entries_at (set_strings config (earlier @ (s, k, v) # later)) s k =
          [(s, k, value_no_newline v)]"
    if later: "\<forall>(s', k', v') \<in> set later. (s', k') \<noteq> (s, k)"
  proof -
    have "set_strings config (earlier @ (s, k, v) # later) =
          set_strings (config_set_string (set_strings config earlier) s k v) later"
      by (simp add: set_strings_def)
    moreover have "unique_names (set_strings config earlier)"
      using assms by (rule unique_names_set_strings)
    ultimately show ?thesis
      using later by (simp add: entries_at_set_strings_other entries_at_set_string_same)
  qed
  then show ?thesis
    using assms
    by (simp add: unique_names_set_strings section_names_set_string section_keys_set_string
        section_keys_set_string_other)
qed

theorem set_string_keeps_names_and_keys_unique_witness:
  "unique_names config_new_empty
   \<and> unique_names (set_strings config_new_empty
        [(''a'', ''k'', ''1''), (''b'', ''k'', ''x''), (''a'', ''j'', ''y''), (''a'', ''k'', ''2'')])
   \<and> section_names (set_strings config_new_empty
        [(''a'', ''k'', ''1''), (''b'', ''k'', ''x''), (''a'', ''j'', ''y''), (''a'', ''k'', ''2'')])
       = [''a'', ''b'']
   \<and> section_keys (set_strings config_new_empty
        [(''a'', ''k'', ''1''), (''b'', ''k'', ''x''), (''a'', ''j'', ''y''), (''a'', ''k'', ''2'')]) ''a''
       = [''k'', ''j'']
   \<and> entries_at (set_strings config_new_empty
        [(''a'', ''k'', ''1''), (''b'', ''k'', ''x''), (''a'', ''k'', ''2''), (''a'', ''j'', ''y'')]) ''a'' ''k''
       = [(''a'', ''k'', ''2'')]"
proof -
  have u: "unique_names config_new_empty"
    by (simp add: unique_names_def config_new_empty_def)
  have l: "\<forall>(s', k', v') \<in> set [(''a'', ''j'', ''y'')]. (s', k') \<noteq> (''a'', ''k'')"
    by simp
  from set_string_keeps_names_and_keys_unique [OF u,
      of "[(''a'', ''k'', ''1''), (''b'', ''k'', ''x''), (''a'', ''j'', ''y''), (''a'', ''k'', ''2'')]"
         "''a''" "''k''" "''2''" "''b''" "[(''a'', ''j'', ''y'')]"
         "[(''a'', ''k'', ''1''), (''b'', ''k'', ''x'')]"] l u
  show ?thesis
    by (simp add: set_strings_def config_set_string_def section_find_def section_new_def
        entry_new_def config_new_empty_def section_names_def section_keys_def value_no_newline_def)
qed

subsection \<open>Properties of the numeric getters\<close>

lemmas strto_defs = strto_def scan_sign_def scan_base_def isspace_def digit_in_base_def
  digit_value_def

lemma strto_empty: "strto [] = None"
  by (simp add: strto_defs)

lemma sint_word_of_int_32:
  "- (2 ^ 31) \<le> i \<Longrightarrow> i < 2 ^ 31 \<Longrightarrow> sint (word_of_int i :: 32 word) = i"
  by (simp add: sint_sbintrunc' signed_take_bit_int_eq_self)

lemma pow31_le: "32 \<le> lb \<Longrightarrow> (2::int) ^ 31 \<le> 2 ^ (lb - 1)"
  by (rule power_increasing) auto

lemma strtol_in_range:
  assumes "32 \<le> lb" "- (2 ^ 31) \<le> denoted v" "denoted v < 2 ^ 31"
  shows "strtol lb v = (denoted v, unconsumed v)"
proof (cases "strto v")
  case None
  then show ?thesis by (simp add: strtol_def denoted_def unconsumed_def)
next
  case (Some r)
  obtain neg n rest where r: "r = (neg, n, rest)" by (cases r) auto
  have p: "(2::int) ^ 31 \<le> 2 ^ (lb - 1)" by (rule pow31_le [OF assms(1)])
  show ?thesis
  proof (cases neg)
    case True
    with assms(2) Some r have "int n \<le> 2 ^ 31" by (simp add: denoted_def)
    with p have "\<not> 2 ^ (lb - 1) < int n" by linarith
    with True Some r show ?thesis by (simp add: strtol_def denoted_def unconsumed_def)
  next
    case False
    with assms(3) Some r have "int n < 2 ^ 31" by (simp add: denoted_def)
    with p have "\<not> 2 ^ (lb - 1) - 1 < int n" by linarith
    with False Some r show ?thesis by (simp add: strtol_def denoted_def unconsumed_def)
  qed
qed

lemma snd_strtol: "snd (strtol lb v) = unconsumed v"
  by (auto simp: strtol_def unconsumed_def split: option.splits)

lemma snd_strtoumax: "snd (strtoumax v) = unconsumed v"
  by (auto simp: strtoumax_def unconsumed_def split: option.splits)

lemma strto_42: "strto ''42'' = Some (False, 42, [])"
  by (simp add: strto_defs)
lemma strto_42x: "strto ''42x'' = Some (False, 42, ''x'')"
  by (simp add: strto_defs)
lemma strto_abc: "strto ''abc'' = None"
  by (simp add: strto_defs)
lemma strto_hex: "strto ''0x1F'' = Some (False, 31, [])"
  by (simp add: strto_defs)
lemma strto_oct: "strto ''-010'' = Some (True, 8, [])"
  by (simp add: strto_defs)
lemma strto_big: "strto ''2147483648'' = Some (False, 2147483648, [])"
  by (simp add: strto_defs)
lemma strto_65536: "strto ''65536'' = Some (False, 65536, [])"
  by (simp add: strto_defs)

lemma strtoumax_in_range:
  assumes "0 \<le> denoted v" "denoted v < 2 ^ 64"
  shows "unat (fst (strtoumax v)) = nat (denoted v)"
proof (cases "strto v")
  case None
  then show ?thesis by (simp add: strtoumax_def denoted_def)
next
  case (Some r)
  obtain neg n rest where r: "r = (neg, n, rest)" by (cases r) auto
  show ?thesis
  proof (cases "neg \<and> n \<noteq> 0")
    case True
    with assms Some r show ?thesis by (simp add: denoted_def)
  next
    case False
    with assms Some r have n: "int n < 2 ^ 64" and d: "denoted v = int n"
      by (auto simp: denoted_def split: if_splits)
    from n have n': "n < 2 ^ 64" by (simp add: of_nat_less_numeral_power_cancel_iff)
    then have "\<not> 2 ^ 64 - 1 < n" by simp
    moreover have "unat (word_of_nat n :: 64 word) = n"
      using n' by (simp add: unat_of_nat)
    moreover have "neg \<Longrightarrow> n = 0" using False by simp
    ultimately show ?thesis using Some r d
      by (auto simp: strtoumax_def)
  qed
qed

text \<open>
  C5 (as amended). With a \<open>long\<close> of at least 32 bits: \<open>config_get_int\<close> returns the
  default when the entry is absent, and when the conversion of the stored text (base
  detected from the text: decimal, \<open>0x\<close> hexadecimal, or octal after a leading \<open>0\<close>) leaves
  any text unconsumed; when the conversion consumes the whole text and the integer it
  denotes lies in the range of the 32-bit \<open>int\<close>, it returns that integer.
\<close>

theorem get_int_parses_or_defaults:
  assumes "32 \<le> lb"
  shows "(entry_find config s k = None \<longrightarrow> config_get_int lb config s k d = d)
    \<and> (entry_find config s k = Some e \<longrightarrow> unconsumed (value e) \<noteq> [] \<longrightarrow>
          config_get_int lb config s k d = d)
    \<and> (entry_find config s k = Some e \<longrightarrow> unconsumed (value e) = [] \<longrightarrow>
          - (2 ^ 31) \<le> denoted (value e) \<longrightarrow> denoted (value e) < 2 ^ 31 \<longrightarrow>
          sint (config_get_int lb config s k d) = denoted (value e))"
proof (intro conjI impI)
  assume "entry_find config s k = None"
  then show "config_get_int lb config s k d = d"
    by (simp add: config_get_int_def)
next
  assume "entry_find config s k = Some e" "unconsumed (value e) \<noteq> []"
  then show "config_get_int lb config s k d = d"
    using snd_strtol [of lb "value e"]
    by (auto simp: config_get_int_def split: prod.splits)
next
  assume e: "entry_find config s k = Some e" and u: "unconsumed (value e) = []"
    and r: "- (2 ^ 31) \<le> denoted (value e)" "denoted (value e) < 2 ^ 31"
  from strtol_in_range [OF assms r] e u
  show "sint (config_get_int lb config s k d) = denoted (value e)"
    using r by (simp add: config_get_int_def sint_word_of_int_32)
qed

theorem get_int_parses_or_defaults_witness:
  "(32::nat) \<le> 64
   \<and> sint (config_get_int 64 (config_set_string config_new_empty ''s'' ''k'' ''42'') ''s'' ''k'' 7) = 42
   \<and> config_get_int 64 (config_set_string config_new_empty ''s'' ''k'' ''42x'') ''s'' ''k'' 7 = 7
   \<and> config_get_int 64 (config_set_string config_new_empty ''s'' ''k'' ''abc'') ''s'' ''k'' 7 = 7
   \<and> sint (config_get_int 64 (config_set_string config_new_empty ''s'' ''k'' ''0x1F'') ''s'' ''k'' 7) = 31
   \<and> config_get_int 64 config_new_empty ''s'' ''k'' 7 = 7"
proof -
  have lb: "(32::nat) \<le> 64" by simp
  have absent: "entry_find config_new_empty ''s'' ''k'' = None"
    by (simp add: entry_find_def section_find_def config_new_empty_def)
  note t = get_int_parses_or_defaults [OF lb, where s = "''s''" and k = "''k''" and d = 7]
  from t [of "config_set_string config_new_empty ''s'' ''k'' ''42''" "\<lparr>key = ''k'', value = ''42''\<rparr>"]
  have a: "sint (config_get_int 64 (config_set_string config_new_empty ''s'' ''k'' ''42'') ''s'' ''k'' 7) = 42"
    by (simp add: entry_find_set_string value_no_newline_def unconsumed_def denoted_def strto_42)
  from t [of "config_set_string config_new_empty ''s'' ''k'' ''42x''" "\<lparr>key = ''k'', value = ''42x''\<rparr>"]
  have b: "config_get_int 64 (config_set_string config_new_empty ''s'' ''k'' ''42x'') ''s'' ''k'' 7 = 7"
    by (simp add: entry_find_set_string value_no_newline_def unconsumed_def strto_42x)
  from t [of "config_set_string config_new_empty ''s'' ''k'' ''abc''" "\<lparr>key = ''k'', value = ''abc''\<rparr>"]
  have c: "config_get_int 64 (config_set_string config_new_empty ''s'' ''k'' ''abc'') ''s'' ''k'' 7 = 7"
    by (simp add: entry_find_set_string value_no_newline_def unconsumed_def strto_abc)
  from t [of "config_set_string config_new_empty ''s'' ''k'' ''0x1F''" "\<lparr>key = ''k'', value = ''0x1F''\<rparr>"]
  have d: "sint (config_get_int 64 (config_set_string config_new_empty ''s'' ''k'' ''0x1F'') ''s'' ''k'' 7) = 31"
    by (simp add: entry_find_set_string value_no_newline_def unconsumed_def denoted_def strto_hex)
  from t [of config_new_empty] absent
  have e: "config_get_int 64 config_new_empty ''s'' ''k'' 7 = 7"
    by simp
  from lb a b c d e show ?thesis by simp
qed

lemma strto_08: "strto ''08'' = Some (False, 0, ''8'')"
  by (simp add: strto_defs)

lemma strto_010: "strto ''010'' = Some (False, 8, [])"
  by (simp add: strto_defs)

text \<open>
  C5 as stated fails: the stored text \<open>2147483648\<close> is consumed whole and denotes
  2147483648, but \<open>config_get_int\<close> returns -2147483648 where \<open>long\<close> has 64 bits (the low
  32 bits of the \<open>long\<close>) and 2147483647 where it has 32 bits (\<open>strtol\<close> clamps). And the
  detected base is not only decimal or hexadecimal: after a leading \<open>0\<close> it is octal, so that
  of the stored text \<open>08\<close> only the \<open>0\<close> is consumed and the default is returned, and the
  stored text \<open>010\<close> gives 8.
\<close>

theorem get_int_out_of_range_counterexample:
  "entry_find (config_set_string config_new_empty ''s'' ''k'' ''2147483648'') ''s'' ''k''
     = Some \<lparr>key = ''k'', value = ''2147483648''\<rparr>
   \<and> unconsumed ''2147483648'' = []
   \<and> denoted ''2147483648'' = 2147483648
   \<and> sint (config_get_int 64 (config_set_string config_new_empty ''s'' ''k'' ''2147483648'')
        ''s'' ''k'' 7) = - 2147483648
   \<and> sint (config_get_int 32 (config_set_string config_new_empty ''s'' ''k'' ''2147483648'')
        ''s'' ''k'' 7) = 2147483647
   \<and> unconsumed ''08'' = ''8''
   \<and> sint (config_get_int 64 (config_set_string config_new_empty ''s'' ''k'' ''08'')
        ''s'' ''k'' 7) = 7
   \<and> sint (config_get_int 64 (config_set_string config_new_empty ''s'' ''k'' ''010'')
        ''s'' ''k'' 7) = 8"
  by (simp add: config_get_int_def entry_find_set_string value_no_newline_def strtol_def
      unconsumed_def denoted_def strto_big strto_08 strto_010)

text \<open>
  C6 as stated fails: the stored text \<open>65536\<close> is consumed whole and denotes 65536, and
  \<open>config_get_uint16\<close> with default 7 returns 0, which is neither the integer denoted nor
  the default.
\<close>

theorem get_uint16_truncates_counterexample:
  "entry_find (config_set_string config_new_empty ''s'' ''k'' ''65536'') ''s'' ''k''
     = Some \<lparr>key = ''k'', value = ''65536''\<rparr>
   \<and> unconsumed ''65536'' = []
   \<and> denoted ''65536'' = 65536
   \<and> config_get_uint16 (config_set_string config_new_empty ''s'' ''k'' ''65536'') ''s'' ''k'' 7 = 0
   \<and> (0 :: 16 word) \<noteq> 7"
  by (simp add: config_get_uint16_def entry_find_set_string value_no_newline_def strtoumax_def
      unconsumed_def denoted_def strto_65536)

text \<open>
  C6 (as amended). \<open>config_get_uint16\<close> returns the default when the entry is absent or
  the conversion leaves text unconsumed; when the conversion consumes the whole text, which
  denotes a non-negative integer below \<open>2^64\<close>, it returns that integer modulo 65536 (its
  low 16 bits), which is the integer itself when it is at most 65535.
\<close>

theorem get_uint16_low_bits_or_default:
  "(entry_find config s k = None \<longrightarrow> config_get_uint16 config s k d = d)
   \<and> (entry_find config s k = Some e \<longrightarrow> unconsumed (value e) \<noteq> [] \<longrightarrow>
         config_get_uint16 config s k d = d)
   \<and> (entry_find config s k = Some e \<longrightarrow> unconsumed (value e) = [] \<longrightarrow>
         0 \<le> denoted (value e) \<longrightarrow> denoted (value e) < 2 ^ 64 \<longrightarrow>
         uint (config_get_uint16 config s k d) = denoted (value e) mod 65536)
   \<and> (entry_find config s k = Some e \<longrightarrow> unconsumed (value e) = [] \<longrightarrow>
         0 \<le> denoted (value e) \<longrightarrow> denoted (value e) \<le> 65535 \<longrightarrow>
         uint (config_get_uint16 config s k d) = denoted (value e))"
proof -
  have low: "uint (config_get_uint16 config s k d) = denoted (value e) mod 65536"
    if e: "entry_find config s k = Some e" and u: "unconsumed (value e) = []"
      and r: "0 \<le> denoted (value e)" "denoted (value e) < 2 ^ 64" for e
  proof -
    obtain w rest where w: "strtoumax (value e) = (w, rest)" by (cases "strtoumax (value e)")
    with snd_strtoumax [of "value e"] u have rest: "rest = []" by simp
    from strtoumax_in_range [OF r] w have "unat w = nat (denoted (value e))" by simp
    then have "uint w = denoted (value e)"
      using r by (simp add: uint_nat)
    moreover have "uint (ucast w :: 16 word) = uint w mod 65536"
      by (simp add: unsigned_ucast_eq take_bit_eq_mod)
    ultimately show ?thesis using e w rest
      by (simp add: config_get_uint16_def)
  qed
  show ?thesis
  proof (intro conjI impI)
    assume "entry_find config s k = None"
    then show "config_get_uint16 config s k d = d"
      by (simp add: config_get_uint16_def)
  next
    assume "entry_find config s k = Some e" "unconsumed (value e) \<noteq> []"
    then show "config_get_uint16 config s k d = d"
      using snd_strtoumax [of "value e"]
      by (auto simp: config_get_uint16_def split: prod.splits)
  next
    assume "entry_find config s k = Some e" "unconsumed (value e) = []"
      "0 \<le> denoted (value e)" "denoted (value e) < 2 ^ 64"
    then show "uint (config_get_uint16 config s k d) = denoted (value e) mod 65536"
      by (rule low)
  next
    assume a: "entry_find config s k = Some e" "unconsumed (value e) = []"
      "0 \<le> denoted (value e)" and b: "denoted (value e) \<le> 65535"
    from b have "denoted (value e) < 2 ^ 64" by simp
    from low [OF a this] a(3) b
    show "uint (config_get_uint16 config s k d) = denoted (value e)"
      by simp
  qed
qed

theorem get_uint16_low_bits_or_default_witness:
  "config_get_uint16 (config_set_string config_new_empty ''s'' ''k'' ''42'') ''s'' ''k'' 7 = 42
   \<and> config_get_uint16 (config_set_string config_new_empty ''s'' ''k'' ''42x'') ''s'' ''k'' 7 = 7
   \<and> config_get_uint16 (config_set_string config_new_empty ''s'' ''k'' ''65536'') ''s'' ''k'' 7 = 0
   \<and> config_get_uint16 config_new_empty ''s'' ''k'' 7 = 7"
proof -
  have absent: "entry_find config_new_empty ''s'' ''k'' = None"
    by (simp add: entry_find_def section_find_def config_new_empty_def)
  note t = get_uint16_low_bits_or_default [where s = "''s''" and k = "''k''" and d = 7]
  from t [of "config_set_string config_new_empty ''s'' ''k'' ''42''" "\<lparr>key = ''k'', value = ''42''\<rparr>"]
  have "uint (config_get_uint16 (config_set_string config_new_empty ''s'' ''k'' ''42'') ''s'' ''k'' 7) = 42"
    by (simp add: entry_find_set_string value_no_newline_def unconsumed_def denoted_def strto_42)
  then have "uint (config_get_uint16 (config_set_string config_new_empty ''s'' ''k'' ''42'') ''s'' ''k'' 7) = uint (42 :: 16 word)"
    by simp
  then have a: "config_get_uint16 (config_set_string config_new_empty ''s'' ''k'' ''42'') ''s'' ''k'' 7 = 42"
    by (rule word_uint_eq_iff [THEN iffD2])
  from t [of "config_set_string config_new_empty ''s'' ''k'' ''42x''" "\<lparr>key = ''k'', value = ''42x''\<rparr>"]
  have b: "config_get_uint16 (config_set_string config_new_empty ''s'' ''k'' ''42x'') ''s'' ''k'' 7 = 7"
    by (simp add: entry_find_set_string value_no_newline_def unconsumed_def strto_42x)
  from t [of "config_set_string config_new_empty ''s'' ''k'' ''65536''" "\<lparr>key = ''k'', value = ''65536''\<rparr>"]
  have "uint (config_get_uint16 (config_set_string config_new_empty ''s'' ''k'' ''65536'') ''s'' ''k'' 7) = 0"
    by (simp add: entry_find_set_string value_no_newline_def unconsumed_def denoted_def strto_65536)
  then have c: "config_get_uint16 (config_set_string config_new_empty ''s'' ''k'' ''65536'') ''s'' ''k'' 7 = 0"
    by (simp add: uint_0_iff)
  from t [of config_new_empty] absent
  have d: "config_get_uint16 config_new_empty ''s'' ''k'' 7 = 7"
    by simp
  from a b c d show ?thesis by simp
qed

text \<open>
  C9. For an entry whose stored value is the empty text, \<open>config_get_int\<close>,
  \<open>config_get_uint16\<close> and \<open>config_get_uint64\<close> return 0 whatever default is given: the
  conversion of the empty text yields 0 with the end pointer at the terminating NUL.
\<close>

theorem get_numeric_of_empty_value_is_zero:
  "entry_find config s k = Some e \<Longrightarrow> value e = [] \<Longrightarrow>
   config_get_int lb config s k d = 0
   \<and> config_get_uint16 config s k d16 = 0
   \<and> config_get_uint64 config s k d64 = 0"
  by (simp add: config_get_int_def config_get_uint16_def config_get_uint64_def strtol_def
      strtoumax_def strtoull_def strto_empty)

theorem get_numeric_of_empty_value_is_zero_witness:
  "entry_find (config_set_string config_new_empty ''s'' ''k'' []) ''s'' ''k''
     = Some \<lparr>key = ''k'', value = []\<rparr>
   \<and> config_get_int 64 (config_set_string config_new_empty ''s'' ''k'' []) ''s'' ''k'' 7 = 0
   \<and> config_get_uint16 (config_set_string config_new_empty ''s'' ''k'' []) ''s'' ''k'' 7 = 0
   \<and> config_get_uint64 (config_set_string config_new_empty ''s'' ''k'' []) ''s'' ''k'' 7 = 0"
proof -
  have e: "entry_find (config_set_string config_new_empty ''s'' ''k'' []) ''s'' ''k''
     = Some \<lparr>key = ''k'', value = []\<rparr>"
    by (simp add: entry_find_set_string value_no_newline_def)
  have v: "value \<lparr>key = ''k'', value = []\<rparr> = []" by simp
  from get_numeric_of_empty_value_is_zero [OF e v, of 64 7 7 7] e show ?thesis by simp
qed

subsection \<open>Properties of the serialization\<close>


lemma config_writes_single: "concat (config_writes [sec]) = section_text sec"
  by (simp add: section_text_def)




subsection \<open>Properties of saving\<close>

lemma temp_filename_neq: "temp_filename filename \<noteq> filename"
  by (simp add: temp_filename_def)




lemma write_all_succeeds:
  "\<forall>j < length ws. \<not> fails (Write (i + j)) \<Longrightarrow> fs p = Some f \<Longrightarrow>
   write_all fails p i ws fs = (None, fs(p \<mapsto> f\<lparr>content := content f @ concat ws\<rparr>))"
proof (induction ws arbitrary: i fs f)
  case Nil
  then show ?case by (simp add: fun_upd_idem)
next
  case (Cons w ws)
  from Cons.prems(1) have nf: "\<not> fails (Write i)"
    by force
  have rest: "\<forall>j < length ws. \<not> fails (Write (Suc i + j))"
  proof (intro allI impI)
    fix j assume "j < length ws"
    then have "Suc j < length (w # ws)" by simp
    with Cons.prems(1) have "\<not> fails (Write (i + Suc j))" by blast
    then show "\<not> fails (Write (Suc i + j))" by simp
  qed
  have ap: "append_file p w fs = fs(p \<mapsto> f\<lparr>content := content f @ w\<rparr>)"
    using Cons.prems(2) by (simp add: append_file_def)
  define g where "g = f\<lparr>content := content f @ w\<rparr>"
  have "write_all fails p (Suc i) ws (fs(p \<mapsto> g)) =
      (None, (fs(p \<mapsto> g))(p \<mapsto> g\<lparr>content := content g @ concat ws\<rparr>))"
    by (rule Cons.IH [OF rest]) simp
  then have "write_all fails p (Suc i) ws (append_file p w fs) =
      (None, fs(p \<mapsto> f\<lparr>content := content f @ w @ concat ws\<rparr>))"
    by (simp add: ap g_def)
  with nf show ?case by (simp add: fun_upd_def)
qed

lemma write_fails_iff:
  "write_fails fails config \<longleftrightarrow>
     (\<exists>j < length (config_writes (sections config)). fails (Write (0 + j)))"
  by (auto simp: write_fails_def list_ex_iff)

lemma fopen_wt_other: "p' \<noteq> p \<Longrightarrow> fopen_wt p fs p' = fs p'"
  by (simp add: fopen_wt_def split: option.splits)

lemma fopen_wt_same: "\<exists>m. fopen_wt p fs p = Some \<lparr>content = [], mode = m\<rparr>"
proof (cases "fs p")
  case None
  then show ?thesis by (simp add: fopen_wt_def)
next
  case (Some f)
  then have "fopen_wt p fs p = Some \<lparr>content = [], mode = mode f\<rparr>"
    by (cases f) (simp add: fopen_wt_def)
  then show ?thesis by blast
qed

text \<open>The file system after the writes, the permission change and the rename all succeeded.\<close>

lemma committed:
  assumes "\<not> write_fails fails config"
  shows "\<exists>fs1. write_all fails (temp_filename filename) 0 (config_writes (sections config))
            (fopen_wt (temp_filename filename) fs) = (None, fs1)
         \<and> rename (temp_filename filename) filename (chmod (temp_filename filename) 432 fs1) =
            (fs(filename \<mapsto> \<lparr>content = config_text config, mode = 432\<rparr>))
              (temp_filename filename := None)"
proof -
  let ?t = "temp_filename filename"
  obtain m where m: "fopen_wt ?t fs ?t = Some \<lparr>content = [], mode = m\<rparr>"
    using fopen_wt_same by blast
  from assms have "\<forall>j < length (config_writes (sections config)). \<not> fails (Write (0 + j))"
    by (simp add: write_fails_iff)
  from write_all_succeeds [where fs = "fopen_wt ?t fs" and p = "?t" and i = 0, OF this m]
  have w: "write_all fails ?t 0 (config_writes (sections config)) (fopen_wt ?t fs) =
      (None, (fopen_wt ?t fs)(?t \<mapsto> \<lparr>content = config_text config, mode = m\<rparr>))"
    by (simp add: config_text_def)
  have "rename ?t filename (chmod ?t 432
          ((fopen_wt ?t fs)(?t \<mapsto> \<lparr>content = config_text config, mode = m\<rparr>))) =
        (fs(filename \<mapsto> \<lparr>content = config_text config, mode = 432\<rparr>))(?t := None)"
    using temp_filename_neq [of filename]
    by (auto simp: rename_def chmod_def fopen_wt_other fun_eq_iff)
  with w show ?thesis by simp
qed


lemma config_save_ok:
  assumes "\<not> fails_before_commit fails config" "\<not> fails DirClose"
  shows "\<exists>log. config_save fails config filename fs =
     Returned True log ((fs(filename \<mapsto> \<lparr>content = config_text config, mode = 432\<rparr>))
                    (temp_filename filename := None))"
proof -
  from assms(1) have "\<not> write_fails fails config"
    by (simp add: fails_before_commit_def)
  from committed [OF this, of filename fs] assms show ?thesis
    by (auto simp: config_save_def fails_before_commit_def Let_def)
qed














subsection \<open>Properties of the line reader\<close>

declare config_parse_loop.simps [simp del]

lemma fgets_chars_line:
  "CHR ''\<newline>'' \<notin> set l \<Longrightarrow> length l < m \<Longrightarrow>
   fgets_chars m (l @ CHR ''\<newline>'' # rest) = (l @ [CHR ''\<newline>''], rest)"
proof (induction l arbitrary: m)
  case Nil
  then show ?case by (cases m) auto
next
  case (Cons c l)
  then show ?case by (cases m) auto
qed

lemma fgets_chars_full:
  "CHR ''\<newline>'' \<notin> set l \<Longrightarrow> length l = m \<Longrightarrow> fgets_chars m (l @ rest) = (l, rest)"
proof (induction l arbitrary: m)
  case Nil
  then show ?case by simp
next
  case (Cons c l)
  then show ?case by (cases m) auto
qed

lemma fgets_line:
  "CHR ''\<newline>'' \<notin> set l \<Longrightarrow> length l \<le> 1022 \<Longrightarrow>
   fgets 1024 (l @ CHR ''\<newline>'' # rest) = Some (l @ [CHR ''\<newline>''], rest)"
  by (simp add: fgets_def fgets_chars_line)

lemma fgets_full:
  "CHR ''\<newline>'' \<notin> set l \<Longrightarrow> length l = 1023 \<Longrightarrow> fgets 1024 (l @ rest) = Some (l, rest)"
  by (auto simp: fgets_def fgets_chars_full)

lemma c_str_id: "CHR 0x00 \<notin> set l \<Longrightarrow> c_str l = l"
  by (induction l) (auto simp: c_str_def)

lemma isspace_newline: "isspace (CHR ''\<newline>'')"
  by (simp add: isspace_def)

lemma rtrim_append_space:
  "isspace c \<Longrightarrow> rev (dropWhile isspace (rev (l @ [c]))) = rev (dropWhile isspace (rev l))"
  by simp

lemma dropWhile_space_append:
  "dropWhile isspace l \<noteq> [] \<Longrightarrow> dropWhile isspace (l @ r) = dropWhile isspace l @ r"
proof -
  assume "dropWhile isspace l \<noteq> []"
  then obtain x where "x \<in> set l" "\<not> isspace x"
    by (auto simp: dropWhile_eq_Nil_conv)
  then show ?thesis by (rule dropWhile_append1)
qed

lemma dropWhile_space_all:
  "dropWhile isspace l = [] \<Longrightarrow> isspace c \<Longrightarrow> dropWhile isspace (l @ [c]) = []"
  by (simp add: dropWhile_eq_Nil_conv)

lemma trim_append_space: "isspace c \<Longrightarrow> trim (l @ [c]) = trim l"
proof (cases "dropWhile isspace l = []")
  case True
  assume "isspace c"
  with True have b: "dropWhile isspace (l @ [c]) = []" by (simp add: dropWhile_space_all)
  show ?thesis by (simp only: trim_def True b)
next
  case False
  assume "isspace c"
  with dropWhile_space_append [OF False, of "[c]"] show ?thesis
    by (simp add: trim_def)
qed

lemma trim_append_spaces: "\<forall>c \<in> set ws. isspace c \<Longrightarrow> trim (l @ ws) = trim l"
proof (induction ws rule: rev_induct)
  case Nil
  then show ?case by simp
next
  case (snoc c ws)
  then have "trim ((l @ ws) @ [c]) = trim (l @ ws)"
    by (intro trim_append_space) simp
  with snoc show ?case by simp
qed

lemma length_rtrim: "length (rev (dropWhile isspace (rev l))) \<le> length l"
  using length_dropWhile_le [of isspace "rev l"] by simp

lemma length_trim: "length (trim l) \<le> length l"
proof -
  have "length (trim l) \<le> length (dropWhile isspace l)"
    unfolding trim_def by (rule length_rtrim)
  also have "\<dots> \<le> length l" by (rule length_dropWhile_le)
  finally show ?thesis .
qed

lemma length_trim_buffer: "length (trim_buffer l) \<le> length l"
proof (cases "dropWhile isspace l = []")
  case True
  then show ?thesis by (simp add: trim_buffer_def)
next
  case False
  have "length (takeWhile isspace l) + length (trim l) \<le>
        length (takeWhile isspace l) + length (dropWhile isspace l)"
    unfolding trim_def using length_rtrim [of "dropWhile isspace l"] by simp
  also have "\<dots> = length (takeWhile isspace l @ dropWhile isspace l)"
    by (simp only: length_append)
  also have "\<dots> = length l"
    by (simp only: takeWhile_dropWhile_id)
  finally show ?thesis using False by (simp add: trim_buffer_def)
qed

lemma trim_buffer_append_space:
  assumes "isspace c" "dropWhile isspace l \<noteq> []"
  shows "trim_buffer (l @ [c]) = trim_buffer l"
proof -
  from dropWhile_space_append [OF assms(2), of "[c]"]
  have d: "dropWhile isspace (l @ [c]) \<noteq> []" by simp
  from assms(2) obtain x where "x \<in> set l" "\<not> isspace x"
    by (auto simp: dropWhile_eq_Nil_conv)
  then have t: "takeWhile isspace (l @ [c]) = takeWhile isspace l"
    by (rule takeWhile_append1)
  have "trim_buffer (l @ [c]) = takeWhile isspace (l @ [c]) @ trim (l @ [c])"
    using d by (simp only: trim_buffer_def) simp
  also have "\<dots> = takeWhile isspace l @ trim l"
    using assms(1) by (simp only: t trim_append_space)
  also have "\<dots> = trim_buffer l"
    using assms(2) by (simp only: trim_buffer_def) simp
  finally show ?thesis .
qed

text \<open>A line that the reader takes whole and that passes the length test.\<close>

lemma short_line_gate:
  assumes "short_line l"
  shows "length (trim_buffer (l @ [CHR ''\<newline>''])) \<noteq> 1023"
proof (cases "dropWhile isspace l = []")
  case True
  then have b: "dropWhile isspace (l @ [CHR ''\<newline>'']) = []"
    by (simp add: dropWhile_space_all isspace_newline)
  have "trim_buffer (l @ [CHR ''\<newline>'']) = l @ [CHR ''\<newline>'']"
    by (simp only: trim_buffer_def b) simp
  moreover from True assms have "length l \<noteq> 1022"
    by (simp only: short_line_def) blast
  ultimately show ?thesis by simp
next
  case False
  from trim_buffer_append_space [OF isspace_newline False]
  have "length (trim_buffer (l @ [CHR ''\<newline>''])) \<le> length l"
    by (simp add: length_trim_buffer)
  with assms show ?thesis by (simp add: short_line_def)
qed

lemma config_parse_loop_eof: "config_parse_loop [] st = st"
  by (subst config_parse_loop.simps) (simp add: fgets_def)

lemma config_parse_loop_short_line:
  assumes "short_line l"
  shows "config_parse_loop (l @ CHR ''\<newline>'' # rest) st =
         config_parse_loop rest (parse_line (trim l) st)"
proof -
  from assms have f: "fgets 1024 (l @ CHR ''\<newline>'' # rest) = Some (l @ [CHR ''\<newline>''], rest)"
    by (simp add: fgets_line short_line_def)
  from assms have c: "c_str (l @ [CHR ''\<newline>'']) = l @ [CHR ''\<newline>'']"
    by (simp add: c_str_id short_line_def)
  show ?thesis
    by (subst config_parse_loop.simps)
      (simp add: f c Let_def short_line_gate [OF assms] trim_append_space isspace_newline)
qed

lemma config_parse_loop_lines:
  assumes "\<forall>l \<in> set ls. short_line l"
  shows "config_parse_loop (unlines ls @ rest) st =
         config_parse_loop rest (parse_lines (map trim ls) st)"
  using assms
proof (induction ls arbitrary: st)
  case Nil
  then show ?case by (simp add: unlines_def parse_lines_def)
next
  case (Cons l ls)
  then have "short_line l" by simp
  from config_parse_loop_short_line [OF this, of "unlines ls @ rest" st] Cons
  show ?case by (simp add: unlines_def parse_lines_def)
qed


subsection \<open>Properties of the line state machine\<close>

lemma parse_line_malformed:
  "malformed_header b \<Longrightarrow> parse_line b st = st\<lparr>skip_entries := True\<rparr>"
  by (auto simp: malformed_header_def parse_line_def split: list.splits)

lemma parse_line_well_formed:
  "well_formed_header h \<Longrightarrow>
   parse_line h st = st\<lparr>cur_section := take (length h - 2) (tl h), skip_entries := False\<rparr>"
  by (auto simp: well_formed_header_def parse_line_def split: list.splits)

lemma all_entries_append_section_new:
  "all_entries (config\<lparr>sections := sections config @ [section_new nm]\<rparr>) = all_entries config"
  by (simp add: all_entries_def triples_append section_new_def)

lemma only_comments_added_refl: "only_comments_added config config"
  by (simp add: only_comments_added_def)

lemma only_comments_added_trans:
  assumes "only_comments_added a b" "only_comments_added b c"
  shows "only_comments_added a c"
proof -
  from assms(1) obtain xs where b: "sections b = sections a @ xs"
    and xs: "list_all (\<lambda>sec. entries sec = [] \<and> is_comment_name (name sec)) xs"
    unfolding only_comments_added_def
    by (metis append_take_drop_id)
  from assms(2) obtain ys where c: "sections c = sections b @ ys"
    and ys: "list_all (\<lambda>sec. entries sec = [] \<and> is_comment_name (name sec)) ys"
    unfolding only_comments_added_def
    by (metis append_take_drop_id)
  from b c xs ys show ?thesis
    by (simp add: only_comments_added_def)
qed

lemma only_comments_added_entries:
  assumes "only_comments_added a b"
  shows "all_entries b = all_entries a"
proof -
  from assms obtain xs where b: "sections b = sections a @ xs"
    and xs: "list_all (\<lambda>sec. entries sec = [] \<and> is_comment_name (name sec)) xs"
    unfolding only_comments_added_def
    by (metis append_take_drop_id)
  from xs have "triples xs = []"
    by (induction xs) auto
  with b show ?thesis by (simp add: all_entries_def triples_append)
qed

lemma parse_line_skipping:
  assumes "skip_entries st" "\<not> well_formed_header l"
  shows "skip_entries (parse_line l st) \<and> cur_section (parse_line l st) = cur_section st
     \<and> only_comments_added (cur_config st) (cur_config (parse_line l st))"
proof (cases l)
  case Nil
  with assms show ?thesis by (simp add: parse_line_def only_comments_added_refl)
next
  case (Cons c cs)
  show ?thesis
  proof (cases "c = CHR ''#''")
    case True
    with Cons assms(1) show ?thesis
      by (auto simp: parse_line_def Let_def only_comments_added_def section_new_def
          is_comment_name_def split: option.splits)
  next
    case False
    with Cons assms show ?thesis
      by (auto simp: parse_line_def well_formed_header_def only_comments_added_refl)
  qed
qed

lemma parse_lines_skipping:
  assumes "skip_entries st" "\<forall>l \<in> set ls. \<not> well_formed_header l"
  shows "skip_entries (parse_lines ls st) \<and> cur_section (parse_lines ls st) = cur_section st
     \<and> only_comments_added (cur_config st) (cur_config (parse_lines ls st))"
  using assms
proof (induction ls arbitrary: st)
  case Nil
  then show ?case by (simp add: parse_lines_def only_comments_added_refl)
next
  case (Cons l ls)
  from Cons.prems have l: "\<not> well_formed_header l" by simp
  note step = parse_line_skipping [OF Cons.prems(1) l]
  from Cons.prems have "\<forall>l \<in> set ls. \<not> well_formed_header l" by simp
  from Cons.IH [OF conjunct1 [OF step] this] step
  show ?case
    by (auto simp: parse_lines_def intro: only_comments_added_trans)
qed

lemma parse_lines_append: "parse_lines (a @ b) st = parse_lines b (parse_lines a st)"
  by (simp add: parse_lines_def)

lemma parse_lines_Cons: "parse_lines (l # ls) st = parse_lines ls (parse_line l st)"
  by (simp add: parse_lines_def)

lemma parse_lines_Nil: "parse_lines [] st = st"
  by (simp add: parse_lines_def)

declare parsed_lines.simps [simp del]

lemma config_parse_loop_parsed_lines:
  "config_parse_loop fp st = parse_lines (parsed_lines fp) st"
proof (induction fp st rule: config_parse_loop.induct)
  case (1 fp st)
  show ?case
  proof (cases "fgets 1024 fp")
    case None
    then show ?thesis
      by (subst config_parse_loop.simps, subst parsed_lines.simps) (simp add: parse_lines_def)
  next
    case (Some r)
    obtain raw fp' where r: "r = (raw, fp')" by (cases r)
    show ?thesis
    proof (cases "length (trim_buffer (c_str raw)) = 1023")
      case True
      with "1.IH"(1) [OF Some r [symmetric] refl refl True] Some r show ?thesis
        by (subst config_parse_loop.simps, subst parsed_lines.simps) (simp add: Let_def)
    next
      case False
      with "1.IH"(2) [OF Some r [symmetric] refl refl False] Some r show ?thesis
        by (subst config_parse_loop.simps, subst parsed_lines.simps)
          (simp add: Let_def parse_lines_Cons)
    qed
  qed
qed

lemma parsed_lines_eof: "parsed_lines [] = []"
  by (subst parsed_lines.simps) (simp add: fgets_def)

lemma parsed_lines_short_line:
  assumes "short_line l"
  shows "parsed_lines (l @ CHR ''\<newline>'' # rest) = trim l # parsed_lines rest"
proof -
  from assms have f: "fgets 1024 (l @ CHR ''\<newline>'' # rest) = Some (l @ [CHR ''\<newline>''], rest)"
    by (simp add: fgets_line short_line_def)
  from assms have c: "c_str (l @ [CHR ''\<newline>'']) = l @ [CHR ''\<newline>'']"
    by (simp add: c_str_id short_line_def)
  show ?thesis
    by (subst parsed_lines.simps)
      (simp add: f c Let_def short_line_gate [OF assms] trim_append_space isspace_newline)
qed

lemma parsed_lines_unlines:
  "\<forall>l \<in> set ls. short_line l \<Longrightarrow> parsed_lines (unlines ls) = map trim ls"
  by (induction ls) (simp_all add: unlines_def parsed_lines_eof parsed_lines_short_line)

lemmas line_defs = short_line_def isspace_def trim_def malformed_header_def well_formed_header_def

lemma parse_malformed_header_example:
  "config_parse dflt ''[bad\<newline>key = value\<newline>[good]\<newline>k = v\<newline>'' config_new_empty =
     \<lparr>sections = [\<lparr>name = ''good'', entries = [\<lparr>key = ''k'', value = ''v''\<rparr>]\<rparr>]\<rparr>"
proof -
  have "\<forall>l \<in> set [''[bad'', ''key = value'', ''[good]'', ''k = v'']. short_line l"
    by (simp add: line_defs)
  from config_parse_loop_lines [OF this, of "[]"] show ?thesis
    by (simp add: config_parse_def unlines_def config_parse_loop_eof parse_lines_def
        parse_line_def line_defs split_at_equals_def config_set_string_def section_find_def
        config_new_empty_def section_new_def entry_new_def value_no_newline_def)
qed

text \<open>
  C7. Let the lines of a stream, as the parser takes them, be the lines \<open>before\<close>, then a
  line that starts with \<open>[\<close> and does not end with \<open>]\<close>, then lines none of which is a
  well-formed \<open>[...]\<close> header. At the end \<open>skip_entries\<close> is set, the current section name is
  the one from before the malformed header, and the store has the entries it had before it:
  at most comment pseudo-sections without entries were appended. When the last line of a
  stream is a well-formed header, \<open>skip_entries\<close> is clear at the end and the current section
  is the text between the brackets.
\<close>

theorem malformed_header_skips_entries:
  assumes "parsed_lines fp = before @ b # ls"
    and "malformed_header b"
    and "\<forall>l \<in> set ls. \<not> well_formed_header l"
  shows "skip_entries (config_parse_loop fp st)
    \<and> cur_section (config_parse_loop fp st) = cur_section (parse_lines before st)
    \<and> all_entries (cur_config (config_parse_loop fp st)) =
        all_entries (cur_config (parse_lines before st))
    \<and> only_comments_added (cur_config (parse_lines before st)) (cur_config (config_parse_loop fp st))
    \<and> (parsed_lines fp' = before' @ [h] \<longrightarrow> well_formed_header h \<longrightarrow>
         \<not> skip_entries (config_parse_loop fp' st')
         \<and> cur_section (config_parse_loop fp' st') = take (length h - 2) (tl h))"
proof -
  let ?st0 = "parse_lines before st"
  let ?st1 = "?st0\<lparr>skip_entries := True\<rparr>"
  have p: "config_parse_loop fp st = parse_lines ls ?st1"
    using assms(1,2)
    by (simp add: config_parse_loop_parsed_lines parse_lines_append parse_lines_Cons
        parse_line_malformed)
  have "skip_entries ?st1" by simp
  from parse_lines_skipping [OF this assms(3)]
  have sk: "skip_entries (parse_lines ls ?st1)
     \<and> cur_section (parse_lines ls ?st1) = cur_section ?st0
     \<and> only_comments_added (cur_config ?st0) (cur_config (parse_lines ls ?st1))"
    by simp
  then have oc: "only_comments_added (cur_config ?st0) (cur_config (config_parse_loop fp st))"
    by (simp add: p)
  have hd: "\<not> skip_entries (config_parse_loop fp' st')
         \<and> cur_section (config_parse_loop fp' st') = take (length h - 2) (tl h)"
    if "parsed_lines fp' = before' @ [h]" "well_formed_header h"
    using that
    by (simp add: config_parse_loop_parsed_lines parse_lines_append parse_lines_Cons
        parse_lines_Nil parse_line_well_formed)
  from sk oc only_comments_added_entries [OF oc] hd show ?thesis
    by (simp add: p)
qed

theorem malformed_header_skips_entries_witness:
  "parsed_lines ''x = 1\<newline>[bad\<newline>key = value\<newline># c\<newline>'' = [''x = 1'', ''[bad'', ''key = value'', ''# c'']
   \<and> malformed_header ''[bad''
   \<and> \<not> well_formed_header ''key = value'' \<and> \<not> well_formed_header ''# c''
   \<and> config_parse_loop ''x = 1\<newline>[bad\<newline>key = value\<newline># c\<newline>''
        \<lparr>cur_config = config_new_empty, cur_section = ''Global'', skip_entries = False\<rparr> =
        \<lparr>cur_config = \<lparr>sections = [\<lparr>name = ''Global'', entries = [\<lparr>key = ''x'', value = ''1''\<rparr>]\<rparr>,
                                     \<lparr>name = ''# c'', entries = []\<rparr>]\<rparr>,
          cur_section = ''Global'', skip_entries = True\<rparr>
   \<and> parsed_lines ''[bad\<newline>[good]\<newline>'' = [''[bad'', ''[good]'']
   \<and> well_formed_header ''[good]''
   \<and> \<not> skip_entries (config_parse_loop ''[bad\<newline>[good]\<newline>''
        \<lparr>cur_config = config_new_empty, cur_section = ''Global'', skip_entries = False\<rparr>)
   \<and> cur_section (config_parse_loop ''[bad\<newline>[good]\<newline>''
        \<lparr>cur_config = config_new_empty, cur_section = ''Global'', skip_entries = False\<rparr>) = ''good''"
proof -
  let ?st = "\<lparr>cur_config = config_new_empty, cur_section = ''Global'', skip_entries = False\<rparr>"
  have "\<forall>l \<in> set [''x = 1'', ''[bad'', ''key = value'', ''# c'']. short_line l"
    by (simp add: line_defs)
  from parsed_lines_unlines [OF this]
  have h1: "parsed_lines ''x = 1\<newline>[bad\<newline>key = value\<newline># c\<newline>'' =
      [''x = 1''] @ ''[bad'' # [''key = value'', ''# c'']"
    by (simp add: unlines_def line_defs)
  have h2: "malformed_header ''[bad''"
    by (simp add: line_defs)
  have h3: "\<forall>l \<in> set [''key = value'', ''# c'']. \<not> well_formed_header l"
    by (simp add: line_defs)
  have "\<forall>l \<in> set [''[bad'', ''[good]'']. short_line l"
    by (simp add: line_defs)
  from parsed_lines_unlines [OF this]
  have h4: "parsed_lines ''[bad\<newline>[good]\<newline>'' = [''[bad''] @ [''[good]'']"
    by (simp add: unlines_def line_defs)
  have h5: "well_formed_header ''[good]''"
    by (simp add: line_defs)
  have full: "config_parse_loop ''x = 1\<newline>[bad\<newline>key = value\<newline># c\<newline>'' ?st =
        \<lparr>cur_config = \<lparr>sections = [\<lparr>name = ''Global'', entries = [\<lparr>key = ''x'', value = ''1''\<rparr>]\<rparr>,
                                     \<lparr>name = ''# c'', entries = []\<rparr>]\<rparr>,
          cur_section = ''Global'', skip_entries = True\<rparr>"
    by (simp add: config_parse_loop_parsed_lines h1 parse_lines_def parse_line_def line_defs
        split_at_equals_def config_set_string_def section_find_def config_new_empty_def
        section_new_def entry_new_def value_no_newline_def)
  from malformed_header_skips_entries [OF h1 h2 h3, of ?st "''[bad\<newline>[good]\<newline>''"
      "[''[bad'']" "''[good]''" ?st] h1 h2 h3 h4 h5 full
  show ?thesis
    by simp
qed

subsection \<open>Trimming\<close>

lemma trim_Nil: "trim [] = []"
  by (simp add: trim_def)

lemma rtrim_decomp:
  "\<exists>ws. l = rev (dropWhile isspace (rev l)) @ ws \<and> (\<forall>c \<in> set ws. isspace c)"
proof -
  have "rev l = takeWhile isspace (rev l) @ dropWhile isspace (rev l)"
    by simp
  then have "l = rev (dropWhile isspace (rev l)) @ rev (takeWhile isspace (rev l))"
    by (metis rev_append rev_rev_ident)
  moreover have "\<forall>c \<in> set (rev (takeWhile isspace (rev l))). isspace c"
    by (auto dest: set_takeWhileD)
  ultimately show ?thesis by blast
qed

lemma rtrim_id:
  assumes "l \<noteq> []" "\<not> isspace (last l)"
  shows "rev (dropWhile isspace (rev l)) = l"
proof -
  from assms have "rev l \<noteq> []" "\<not> isspace (hd (rev l))"
    by (simp_all add: hd_rev)
  then have "dropWhile isspace (rev l) = rev l"
    by (cases "rev l") auto
  then show ?thesis by simp
qed

lemma trim_id:
  assumes "l \<noteq> []" "\<not> isspace (hd l)" "\<not> isspace (last l)"
  shows "trim l = l"
proof -
  from assms(1,2) have "dropWhile isspace l = l"
    by (cases l) auto
  with rtrim_id [OF assms(1,3)] show ?thesis
    by (simp add: trim_def)
qed

lemma trim_ends:
  assumes "trim l = l" "l \<noteq> []"
  shows "\<not> isspace (hd l) \<and> \<not> isspace (last l)"
proof -
  let ?d = "dropWhile isspace l"
  from assms have d: "rev (dropWhile isspace (rev ?d)) = l"
    by (simp add: trim_def)
  have ne: "dropWhile isspace (rev ?d) \<noteq> []"
  proof
    assume "dropWhile isspace (rev ?d) = []"
    then have "rev (dropWhile isspace (rev ?d)) = []" by (simp only: rev.simps)
    with d assms(2) show False by simp
  qed
  from d have "last l = hd (dropWhile isspace (rev ?d))"
    using ne by (metis last_rev rev_rev_ident)
  with hd_dropWhile [OF ne] have l: "\<not> isspace (last l)" by simp
  from rtrim_decomp [of ?d] d obtain ws where "?d = l @ ws" by auto
  with assms(2) have "hd ?d = hd l" "?d \<noteq> []" by auto
  with hd_dropWhile [of isspace l] have "\<not> isspace (hd l)" by auto
  with l show ?thesis by simp
qed

lemma trim_space_Cons: "isspace c \<Longrightarrow> trim (c # l) = trim l"
  by (simp add: trim_def)

text \<open>Trimming a line that holds an \<open>=\<close>: white space goes from before and after.\<close>

lemma trim_around_equals:
  "trim (pre @ CHR ''='' # post) =
     dropWhile isspace pre @ CHR ''='' # rev (dropWhile isspace (rev post))"
proof -
  have e: "\<not> isspace (CHR ''='')" by (simp add: isspace_def)
  have "dropWhile isspace (pre @ CHR ''='' # post) = dropWhile isspace pre @ CHR ''='' # post"
    using e by (rule dropWhile_append3)
  moreover have "dropWhile isspace (rev post @ CHR ''='' # rev (dropWhile isspace pre)) =
      dropWhile isspace (rev post) @ CHR ''='' # rev (dropWhile isspace pre)"
    using e by (rule dropWhile_append3)
  ultimately show ?thesis by (simp add: trim_def)
qed

lemma split_at_equals_first:
  "CHR ''='' \<notin> set x \<Longrightarrow> split_at_equals (x @ CHR ''='' # y) = Some (x, y)"
  by (induction x) (auto simp: split_at_equals_def)

lemma trim_key_part:
  assumes "trim k = k"
  shows "trim (dropWhile isspace (k @ '' '')) = k"
proof -
  have "trim (dropWhile isspace (k @ '' '')) = trim (k @ '' '')"
    by (simp add: trim_def)
  also have "\<dots> = trim k"
    by (rule trim_append_space) (simp add: isspace_def)
  finally show ?thesis using assms by simp
qed

lemma trim_value_part:
  assumes "trim v = v"
  shows "trim (rev (dropWhile isspace (rev ('' '' @ v)))) = v"
proof (cases "v = []")
  case True
  then show ?thesis by (simp add: trim_def isspace_def)
next
  case False
  with trim_ends [OF assms] have "\<not> isspace (last ('' '' @ v))" by simp
  then have "rev (dropWhile isspace (rev ('' '' @ v))) = '' '' @ v"
    by (intro rtrim_id) simp_all
  moreover have "trim ('' '' @ v) = trim v"
    using trim_space_Cons [of "CHR '' ''" v] by (simp add: isspace_def)
  ultimately show ?thesis using assms by simp
qed

subsection \<open>Parsing the lines that the save writes\<close>

lemma entry_text_short:
  assumes "plain_entry e"
  shows "short_line (entry_text e)"
  using assms
  by (auto simp: plain_entry_def plain_key_def plain_value_def short_line_def entry_text_def
      dropWhile_eq_Nil_conv isspace_def)

lemma parse_entry_text:
  assumes "plain_entry e" "\<not> skip_entries st"
  shows "parse_line (trim (entry_text e)) st =
     st\<lparr>cur_config := config_set_string (cur_config st) (cur_section st) (key e) (value e)\<rparr>"
proof -
  let ?x = "dropWhile isspace (key e @ '' '')"
  let ?y = "rev (dropWhile isspace (rev ('' '' @ value e)))"
  from assms(1) have k: "trim (key e) = key e" and v: "trim (value e) = value e"
    and ne: "CHR ''='' \<notin> set (key e)"
    and h: "key e \<noteq> [] \<Longrightarrow> hd (key e) \<noteq> CHR ''#'' \<and> hd (key e) \<noteq> CHR ''[''"
    by (auto simp: plain_entry_def plain_key_def plain_value_def split: list.splits)
  have t: "trim (entry_text e) = ?x @ CHR ''='' # ?y"
    using trim_around_equals [of "key e @ '' ''" "'' '' @ value e"]
    by (simp add: entry_text_def)
  have nx: "CHR ''='' \<notin> set ?x"
    using ne by (auto dest: set_dropWhileD)
  have sp: "split_at_equals (?x @ CHR ''='' # ?y) = Some (?x, ?y)"
    using nx by (rule split_at_equals_first)
  have first: "hd (?x @ CHR ''='' # ?y) \<noteq> CHR ''#'' \<and> hd (?x @ CHR ''='' # ?y) \<noteq> CHR ''[''"
  proof (cases "key e = []")
    case True
    then show ?thesis by (simp add: isspace_def)
  next
    case False
    with trim_ends [OF k] have "\<not> isspace (hd (key e))" by simp
    with False have "dropWhile isspace (key e @ '' '') = key e @ '' ''"
      by (cases "key e") auto
    with False h show ?thesis by simp
  qed
  obtain c cs where cs: "?x @ CHR ''='' # ?y = c # cs"
    by (cases "?x @ CHR ''='' # ?y") auto
  with first have c: "c \<noteq> CHR ''#''" "c \<noteq> CHR ''[''" by auto
  have "parse_line (c # cs) st =
     st\<lparr>cur_config := config_set_string (cur_config st) (cur_section st) (trim ?x) (trim ?y)\<rparr>"
    using c assms(2) sp [unfolded cs] by (simp add: parse_line_def)
  then show ?thesis
    using trim_key_part [OF k] trim_value_part [OF v] by (simp only: t cs)
qed

lemma header_text_short:
  assumes "plain_section (name sec)"
  shows "short_line (header_text sec)"
  using assms
  by (auto simp: plain_section_def short_line_def header_text_def isspace_def)

lemma parse_header_text:
  "parse_line (trim (header_text sec)) st = st\<lparr>cur_section := name sec, skip_entries := False\<rparr>"
proof -
  have "trim (header_text sec) = header_text sec"
    by (rule trim_id) (simp_all add: header_text_def isspace_def)
  moreover have "well_formed_header (header_text sec)"
    by (simp add: well_formed_header_def header_text_def)
  ultimately show ?thesis
    by (simp add: parse_line_well_formed) (simp add: header_text_def)
qed


lemma unlines_append: "unlines (a @ b) = unlines a @ unlines b"
  by (simp add: unlines_def)

lemma unlines_Cons: "unlines (l # ls) = l @ CHR ''\<newline>'' # unlines ls"
  by (simp add: unlines_def)

lemma entry_lines_unlines: "concat (map entry_line es) = unlines (map entry_text es)"
  by (induction es) (simp_all add: unlines_def entry_line_def entry_text_def)

lemma config_writes_lines:
  "list_all (\<lambda>sec. \<not> is_comment_name (name sec)) secs \<Longrightarrow>
   concat (config_writes secs) = unlines (store_lines secs)"
proof (induction secs)
  case Nil
  then show ?case by (simp add: unlines_def)
next
  case (Cons sec secs)
  then have "section_header sec = header_text sec @ [CHR ''\<newline>'']"
    by (simp add: section_header_def header_text_def)
  with Cons show ?case
    by (simp add: unlines_append unlines_Cons entry_lines_unlines) (simp add: unlines_def)
qed

lemma parse_entry_lines:
  "list_all plain_entry es \<Longrightarrow> \<not> skip_entries st \<Longrightarrow>
   parse_lines (map trim (map entry_text es)) st =
     st\<lparr>cur_config :=
          foldl (\<lambda>c e. config_set_string c (cur_section st) (key e) (value e)) (cur_config st) es\<rparr>"
proof (induction es arbitrary: st)
  case Nil
  then show ?case by (simp add: parse_lines_Nil)
next
  case (Cons e es)
  from Cons.prems have e: "plain_entry e" and es: "list_all plain_entry es" by simp_all
  let ?st = "st\<lparr>cur_config := config_set_string (cur_config st) (cur_section st) (key e) (value e)\<rparr>"
  have "\<not> skip_entries ?st" using Cons.prems(2) by simp
  from Cons.IH [OF es this] parse_entry_text [OF e Cons.prems(2)]
  show ?case by (simp add: parse_lines_Cons)
qed

subsection \<open>Setting the entries of a new section in order\<close>

lemma find_section_absent: "nm \<notin> set (map name pre) \<Longrightarrow> find_section pre nm = None"
  by (simp add: find_section_None_iff)

lemma find_section_last:
  "nm \<notin> set (map name pre) \<Longrightarrow> name sec = nm \<Longrightarrow> find_section (pre @ [sec]) nm = Some sec"
  by (induction pre) auto

lemma set_in_section_last:
  "nm \<notin> set (map name pre) \<Longrightarrow> name sec = nm \<Longrightarrow>
   set_in_section (pre @ [sec]) nm k v = pre @ [sec\<lparr>entries := set_entry (entries sec) k v\<rparr>]"
  by (induction pre) auto

lemma set_entry_append:
  "k \<notin> set (map key es) \<Longrightarrow> set_entry es k v = es @ [\<lparr>key = k, value = v\<rparr>]"
  by (induction es) (auto simp: entry_new_def)

lemma set_string_new_section:
  assumes "nm \<notin> set (map name pre)" "CHR ''\<newline>'' \<notin> set v"
  shows "config_set_string \<lparr>sections = pre\<rparr> nm k v =
     \<lparr>sections = pre @ [\<lparr>name = nm, entries = [\<lparr>key = k, value = v\<rparr>]\<rparr>]\<rparr>"
  using assms set_in_section_last [of nm pre "section_new nm" k v]
  by (simp add: config_set_string_def section_find_def find_section_absent section_new_def
      entry_new_def value_no_newline_id)

lemma set_string_last_section:
  assumes "nm \<notin> set (map name pre)" "k \<notin> set (map key es)" "CHR ''\<newline>'' \<notin> set v"
  shows "config_set_string \<lparr>sections = pre @ [\<lparr>name = nm, entries = es\<rparr>]\<rparr> nm k v =
     \<lparr>sections = pre @ [\<lparr>name = nm, entries = es @ [\<lparr>key = k, value = v\<rparr>]\<rparr>]\<rparr>"
  using assms set_in_section_last [of nm pre "\<lparr>name = nm, entries = es\<rparr>" k v]
    find_section_last [of nm pre "\<lparr>name = nm, entries = es\<rparr>"]
  by (simp add: config_set_string_def section_find_def set_entry_append value_no_newline_id)

lemma entry_eta: "\<lparr>key = key e, value = value e\<rparr> = (e :: entry_t)"
  by (cases e) simp

lemma set_entries_in_order:
  assumes "nm \<notin> set (map name pre)" "distinct (map key (es @ later))"
    and "\<forall>e \<in> set later. CHR ''\<newline>'' \<notin> set (value e)"
  shows "foldl (\<lambda>c e. config_set_string c nm (key e) (value e))
           \<lparr>sections = pre @ [\<lparr>name = nm, entries = es\<rparr>]\<rparr> later =
         \<lparr>sections = pre @ [\<lparr>name = nm, entries = es @ later\<rparr>]\<rparr>"
  using assms(2,3)
proof (induction later arbitrary: es)
  case Nil
  then show ?case by simp
next
  case (Cons e later)
  from Cons.prems have k: "key e \<notin> set (map key es)" and v: "CHR ''\<newline>'' \<notin> set (value e)"
    by auto
  from Cons.prems have "distinct (map key ((es @ [e]) @ later))"
    and "\<forall>e \<in> set later. CHR ''\<newline>'' \<notin> set (value e)"
    by auto
  from Cons.IH [OF this] set_string_last_section [OF assms(1) k v]
  show ?case by (simp add: entry_eta)
qed

lemma set_section_entries:
  assumes "nm \<notin> set (map name pre)" "distinct (map key es)" "es \<noteq> []"
    and "\<forall>e \<in> set es. CHR ''\<newline>'' \<notin> set (value e)"
  shows "foldl (\<lambda>c e. config_set_string c nm (key e) (value e)) \<lparr>sections = pre\<rparr> es =
         \<lparr>sections = pre @ [\<lparr>name = nm, entries = es\<rparr>]\<rparr>"
proof (cases es)
  case Nil
  with assms(3) show ?thesis by simp
next
  case (Cons e later)
  with assms have "distinct (map key ([e] @ later))"
    and "\<forall>e \<in> set later. CHR ''\<newline>'' \<notin> set (value e)" and "CHR ''\<newline>'' \<notin> set (value e)"
    by auto
  from set_entries_in_order [OF assms(1) this(1,2)]
    set_string_new_section [OF assms(1) this(3), of "key e"]
  show ?thesis using Cons by (simp add: entry_eta)
qed


subsection \<open>Parsing the saved text of a plain store\<close>

lemma section_eta: "\<lparr>name = name sec, entries = entries sec\<rparr> = (sec :: section_t)"
  by (cases sec) simp

lemma config_eta: "\<lparr>sections = sections config\<rparr> = (config :: config_t)"
  by (cases config) simp

lemma parse_section_lines:
  assumes "cur_config st = \<lparr>sections = pre\<rparr>" "name sec \<notin> set (map name pre)"
    and "plain_section (name sec)" "entries sec \<noteq> []" "list_all plain_entry (entries sec)"
    and "distinct (map key (entries sec))"
  shows "parse_lines (map trim (header_text sec # map entry_text (entries sec))) st =
     \<lparr>cur_config = \<lparr>sections = pre @ [sec]\<rparr>, cur_section = name sec, skip_entries = False\<rparr>"
proof -
  let ?st1 = "st\<lparr>cur_section := name sec, skip_entries := False\<rparr>"
  have nl: "\<forall>e \<in> set (entries sec). CHR ''\<newline>'' \<notin> set (value e)"
    using assms(5) by (auto simp: list_all_iff plain_entry_def plain_value_def)
  have "parse_lines (map trim (header_text sec # map entry_text (entries sec))) st =
        parse_lines (map trim (map entry_text (entries sec))) ?st1"
    by (simp add: parse_lines_Cons parse_header_text)
  also have "\<dots> = ?st1\<lparr>cur_config :=
      foldl (\<lambda>c e. config_set_string c (name sec) (key e) (value e)) \<lparr>sections = pre\<rparr> (entries sec)\<rparr>"
    using parse_entry_lines [OF assms(5), of ?st1] assms(1) by simp
  also have "\<dots> = ?st1\<lparr>cur_config := \<lparr>sections = pre @ [sec]\<rparr>\<rparr>"
    using set_section_entries [OF assms(2,6,4) nl] by (simp add: section_eta)
  also have "\<dots> =
     \<lparr>cur_config = \<lparr>sections = pre @ [sec]\<rparr>, cur_section = name sec, skip_entries = False\<rparr>"
    by (cases st) simp
  finally show ?thesis .
qed

lemma parse_store_lines:
  assumes "cur_config st = \<lparr>sections = pre\<rparr>" "distinct (map name (pre @ secs))"
    and "list_all (\<lambda>sec. plain_section (name sec) \<and> entries sec \<noteq> []
             \<and> list_all plain_entry (entries sec) \<and> distinct (map key (entries sec))) secs"
  shows "cur_config (parse_lines (map trim (store_lines secs)) st) = \<lparr>sections = pre @ secs\<rparr>"
  using assms
proof (induction secs arbitrary: pre st)
  case Nil
  then show ?case by (simp add: parse_lines_Nil)
next
  case (Cons sec secs)
  let ?st1 = "\<lparr>cur_config = \<lparr>sections = pre @ [sec]\<rparr>, cur_section = name sec,
               skip_entries = False\<rparr>"
  from Cons.prems have sec: "name sec \<notin> set (map name pre)" "plain_section (name sec)"
    "entries sec \<noteq> []" "list_all plain_entry (entries sec)" "distinct (map key (entries sec))"
    by auto
  note one = parse_section_lines [OF Cons.prems(1) sec]
  have blank: "parse_lines (map trim (if secs \<noteq> [] then [''''] else [])) ?st1 = ?st1"
    by (simp add: parse_lines_Cons parse_lines_Nil trim_Nil parse_line_def)
  have c: "cur_config ?st1 = \<lparr>sections = pre @ [sec]\<rparr>" by simp
  from Cons.prems have d: "distinct (map name ((pre @ [sec]) @ secs))" by simp
  from Cons.prems have r: "list_all (\<lambda>sec. plain_section (name sec) \<and> entries sec \<noteq> []
             \<and> list_all plain_entry (entries sec) \<and> distinct (map key (entries sec))) secs"
    by simp
  have "parse_lines (map trim (store_lines (sec # secs))) st =
        parse_lines (map trim (store_lines secs))
          (parse_lines (map trim (if secs \<noteq> [] then [''''] else []))
            (parse_lines (map trim (header_text sec # map entry_text (entries sec))) st))"
    by (simp only: store_lines.simps map_append parse_lines_append append_Cons [symmetric])
  then have "parse_lines (map trim (store_lines (sec # secs))) st =
        parse_lines (map trim (store_lines secs)) ?st1"
    by (simp only: one blank)
  with Cons.IH [OF c d r] show ?case by simp
qed

lemma store_lines_short:
  "list_all (\<lambda>sec. plain_section (name sec) \<and> list_all plain_entry (entries sec)) secs \<Longrightarrow>
   \<forall>l \<in> set (store_lines secs). short_line l"
proof (induction secs)
  case Nil
  then show ?case by simp
next
  case (Cons sec secs)
  have "short_line []" by (simp add: short_line_def)
  with Cons show ?case
    by (auto simp: header_text_short entry_text_short list_all_iff)
qed

lemma plain_store_round_trip:
  assumes "plain_store config"
  shows "config_parse dflt (config_text config) config_new_empty = config"
proof -
  let ?st0 = "\<lparr>cur_config = config_new_empty, cur_section = dflt, skip_entries = False\<rparr>"
  from assms have nc: "list_all (\<lambda>sec. \<not> is_comment_name (name sec)) (sections config)"
    by (auto simp: plain_store_def list_all_iff plain_section_def)
  from assms have sh: "\<forall>l \<in> set (store_lines (sections config)). short_line l"
    by (intro store_lines_short) (auto simp: plain_store_def list_all_iff)
  from assms have ok: "list_all (\<lambda>sec. plain_section (name sec) \<and> entries sec \<noteq> []
             \<and> list_all plain_entry (entries sec) \<and> distinct (map key (entries sec)))
             (sections config)"
    by (auto simp: plain_store_def unique_names_def list_all_iff)
  from assms have d: "distinct (map name ([] @ sections config))"
    by (simp add: plain_store_def unique_names_def)
  have c: "cur_config ?st0 = \<lparr>sections = []\<rparr>"
    by (simp add: config_new_empty_def)
  have "config_text config = unlines (store_lines (sections config)) @ []"
    using config_writes_lines [OF nc] by (simp add: config_text_def)
  then have "config_parse_loop (config_text config) ?st0 =
      parse_lines (map trim (store_lines (sections config))) ?st0"
    using config_parse_loop_lines [OF sh, of "[]" ?st0]
    by (simp only: config_parse_loop_eof)
  with parse_store_lines [OF c d ok] show ?thesis
    by (simp add: config_parse_def config_eta)
qed

subsection \<open>Stores built by set calls with plain arguments\<close>

lemma set_entry_not_empty: "set_entry es k v \<noteq> []"
  by (cases es) (auto simp: entry_new_def)

lemma plain_set_entry:
  "list_all plain_entry es \<Longrightarrow> plain_entry \<lparr>key = k, value = v\<rparr> \<Longrightarrow>
   list_all plain_entry (set_entry es k v)"
proof (induction es)
  case Nil
  then show ?case by (simp add: entry_new_def)
next
  case (Cons e es)
  then show ?case by (auto simp: plain_entry_def)
qed

lemma plain_set_in_section:
  assumes "plain_entry \<lparr>key = k, value = v\<rparr>"
  shows "list_all (\<lambda>sec. plain_section (name sec) \<and> entries sec \<noteq> []
                        \<and> list_all plain_entry (entries sec)) secs \<Longrightarrow>
   list_all (\<lambda>sec. plain_section (name sec) \<and> entries sec \<noteq> []
                        \<and> list_all plain_entry (entries sec)) (set_in_section secs s k v)"
  by (induction secs) (auto simp: set_entry_not_empty plain_set_entry [OF _ assms])

lemma plain_set_in_section_new:
  assumes "plain_entry \<lparr>key = k, value = v\<rparr>" "plain_section s"
  shows "list_all (\<lambda>sec. plain_section (name sec) \<and> entries sec \<noteq> []
                        \<and> list_all plain_entry (entries sec)) secs \<Longrightarrow>
   s \<notin> set (map name secs) \<Longrightarrow>
   list_all (\<lambda>sec. plain_section (name sec) \<and> entries sec \<noteq> []
                        \<and> list_all plain_entry (entries sec))
     (set_in_section (secs @ [section_new s]) s k v)"
  using assms
  by (induction secs) (auto simp: set_entry_not_empty plain_set_entry section_new_def entry_new_def)

lemma plain_store_set_string:
  assumes "plain_store config" "plain_section s"
    and "plain_entry \<lparr>key = k, value = value_no_newline v\<rparr>"
  shows "plain_store (config_set_string config s k v)"
proof -
  from assms(1) have "unique_names (config_set_string config s k v)"
    by (simp add: plain_store_def unique_names_set_string)
  moreover from assms have "list_all (\<lambda>sec. plain_section (name sec) \<and> entries sec \<noteq> []
      \<and> list_all plain_entry (entries sec)) (sections (config_set_string config s k v))"
    by (auto simp: plain_store_def config_set_string_def plain_set_in_section
        plain_set_in_section_new section_find_def find_section_None_iff split: option.splits)
  ultimately show ?thesis by (simp add: plain_store_def)
qed

lemma plain_store_set_strings:
  assumes "plain_store config"
    and "\<forall>(s, k, v) \<in> set ops. plain_section s \<and> plain_entry \<lparr>key = k, value = value_no_newline v\<rparr>"
  shows "plain_store (set_strings config ops)"
  using assms unfolding set_strings_def
  by (induction ops arbitrary: config) (auto simp: plain_store_set_string)

lemma plain_store_empty: "plain_store config_new_empty"
  by (simp add: plain_store_def unique_names_def config_new_empty_def)


text \<open>
  C1 (as amended). For every store built from the empty store by set calls whose section
  names, keys and stored (newline-free) values are plain, parsing the saved text gives the
  store back: the same sections in the same order, the same entries in the same order within
  each section, and the same values, in the newline-free form stored by \<open>config_set_string\<close>
  (the typed setters call \<open>config_set_string\<close> with the formatted value). So does
  \<open>config_new\<close> on the file that a successful \<open>config_save\<close> has written.
\<close>

theorem save_load_round_trip:
  assumes "\<forall>(s, k, v) \<in> set ops.
             plain_section s \<and> plain_entry \<lparr>key = k, value = value_no_newline v\<rparr>"
  shows "config_parse dflt (config_text (set_strings config_new_empty ops)) config_new_empty =
           set_strings config_new_empty ops
    \<and> (\<not> fails_before_commit fails (set_strings config_new_empty ops) \<longrightarrow> \<not> fails DirClose \<longrightarrow>
         (\<exists>log fs'. config_save fails (set_strings config_new_empty ops) filename fs =
                      Returned True log fs'
                  \<and> config_new dflt fs' filename = Some (set_strings config_new_empty ops)))"
proof -
  let ?c = "set_strings config_new_empty ops"
  have p: "plain_store ?c"
    using plain_store_empty assms by (rule plain_store_set_strings)
  then have rt: "config_parse dflt (config_text ?c) config_new_empty = ?c"
    by (rule plain_store_round_trip)
  have "\<exists>log fs'. config_save fails ?c filename fs = Returned True log fs'
                  \<and> config_new dflt fs' filename = Some ?c"
    if "\<not> fails_before_commit fails ?c" "\<not> fails DirClose"
    using config_save_ok [OF that, of filename fs] temp_filename_neq [of filename] rt
    by (auto simp: config_new_def)
  with rt show ?thesis by blast
qed

lemma round_trip_example_text:
  "config_text (set_strings config_new_empty
      [(''s'', ''k'', ''v''), (''t'', ''k'', ''1''), (''s'', ''j'', ''a\<newline>b'')]) =
   ''[s]\<newline>k = v\<newline>j = a\<newline>\<newline>[t]\<newline>k = 1\<newline>''"
  by (simp add: config_text_def set_strings_def config_set_string_def config_new_empty_def
      section_find_def section_new_def entry_new_def value_no_newline_def section_header_def
      is_comment_name_def entry_line_def)

theorem save_load_round_trip_witness:
  "plain_section ''s'' \<and> plain_section ''t''
   \<and> plain_entry \<lparr>key = ''k'', value = value_no_newline ''v''\<rparr>
   \<and> plain_entry \<lparr>key = ''k'', value = value_no_newline ''1''\<rparr>
   \<and> plain_entry \<lparr>key = ''j'', value = value_no_newline ''a\<newline>b''\<rparr>
   \<and> config_parse ''Global'' ''[s]\<newline>k = v\<newline>j = a\<newline>\<newline>[t]\<newline>k = 1\<newline>'' config_new_empty =
       set_strings config_new_empty
         [(''s'', ''k'', ''v''), (''t'', ''k'', ''1''), (''s'', ''j'', ''a\<newline>b'')]"
proof -
  have h: "plain_section ''s''" "plain_section ''t''"
    "plain_entry \<lparr>key = ''k'', value = value_no_newline ''v''\<rparr>"
    "plain_entry \<lparr>key = ''k'', value = value_no_newline ''1''\<rparr>"
    "plain_entry \<lparr>key = ''j'', value = value_no_newline ''a\<newline>b''\<rparr>"
    by (simp_all add: plain_section_def plain_entry_def plain_key_def plain_value_def
        is_comment_name_def value_no_newline_def trim_def isspace_def)
  then have "\<forall>(s, k, v) \<in> set [(''s'', ''k'', ''v''), (''t'', ''k'', ''1''), (''s'', ''j'', ''a\<newline>b'')].
             plain_section s \<and> plain_entry \<lparr>key = k, value = value_no_newline v\<rparr>"
    by simp
  from save_load_round_trip [OF this, of "''Global''"] h show ?thesis
    by (simp only: round_trip_example_text)
qed

text \<open>
  C1 as stated fails: a value set with a leading blank is saved as it is and parsed back
  without the blank.
\<close>

theorem save_load_round_trip_counterexample:
  "config_get_string (set_strings config_new_empty [(''s'', ''k'', '' v'')]) ''s'' ''k'' [] = '' v''
   \<and> config_text (set_strings config_new_empty [(''s'', ''k'', '' v'')]) = ''[s]\<newline>k =  v\<newline>''
   \<and> config_get_string
        (config_parse ''Global'' (config_text (set_strings config_new_empty [(''s'', ''k'', '' v'')]))
           config_new_empty) ''s'' ''k'' [] = ''v''"
proof -
  have t: "config_text (set_strings config_new_empty [(''s'', ''k'', '' v'')]) = ''[s]\<newline>k =  v\<newline>''"
    by (simp add: config_text_def set_strings_def config_set_string_def config_new_empty_def
      section_find_def section_new_def entry_new_def value_no_newline_def section_header_def
      is_comment_name_def entry_line_def)
  have "\<forall>l \<in> set [''[s]'', ''k =  v'']. short_line l"
    by (simp add: line_defs)
  from config_parse_loop_lines [OF this, of "[]"]
  have "config_parse ''Global'' ''[s]\<newline>k =  v\<newline>'' config_new_empty =
      \<lparr>sections = [\<lparr>name = ''s'', entries = [\<lparr>key = ''k'', value = ''v''\<rparr>]\<rparr>]\<rparr>"
    by (simp add: config_parse_def unlines_def config_parse_loop_eof parse_lines_def
        parse_line_def line_defs split_at_equals_def config_set_string_def section_find_def
        config_new_empty_def section_new_def entry_new_def value_no_newline_def)
  then show ?thesis
    by (simp add: t)
      (simp add: config_get_string_def entry_find_def section_find_def set_strings_def
        config_set_string_def config_new_empty_def section_new_def entry_new_def
        value_no_newline_def)
qed

subsection \<open>Saving comment pseudo-sections\<close>






subsection \<open>The length test\<close>

lemma dropWhile_replicate_append:
  "0 < n \<Longrightarrow> \<not> P c \<Longrightarrow> dropWhile P (replicate n c @ r) = replicate n c @ r"
  by (cases n) auto

lemma config_parse_loop_full_buffer:
  assumes "length l = 1023" "CHR ''\<newline>'' \<notin> set l" "CHR 0x00 \<notin> set l"
  shows "config_parse_loop (l @ rest) st =
     (if length (trim_buffer l) = 1023 then config_parse_loop (skip_to_newline rest) st
      else config_parse_loop rest (parse_line (trim l) st))"
  using assms by (subst config_parse_loop.simps) (simp add: fgets_full c_str_id Let_def)

lemma all_spaces: "\<forall>c \<in> set (replicate n (CHR '' '')). isspace c"
  by (simp add: isspace_def)

lemma parsed_lines_full_buffer:
  assumes "length l = 1023" "CHR ''\<newline>'' \<notin> set l" "CHR 0x00 \<notin> set l"
  shows "parsed_lines (l @ rest) =
     (if length (trim_buffer l) = 1023 then parsed_lines (skip_to_newline rest)
      else trim l # parsed_lines rest)"
  using assms by (subst parsed_lines.simps) (simp add: fgets_full c_str_id Let_def)

lemma trim_buffer_full:
  assumes "l \<noteq> []" "\<not> isspace (last l)"
  shows "trim_buffer l = l"
proof -
  from assms have ne: "dropWhile isspace l \<noteq> []"
    by (metis dropWhile_eq_Nil_conv last_in_set)
  then have "last (dropWhile isspace l) = last l"
    by (metis append_take_drop_id last_appendR takeWhile_dropWhile_id)
  with assms ne have "rev (dropWhile isspace (rev (dropWhile isspace l))) = dropWhile isspace l"
    by (intro rtrim_id) simp_all
  then have "trim l = dropWhile isspace l"
    by (simp add: trim_def)
  with ne show ?thesis
    by (simp add: trim_buffer_def)
qed

lemma skip_to_newline_line:
  "CHR ''\<newline>'' \<notin> set l \<Longrightarrow> skip_to_newline (l @ CHR ''\<newline>'' # rest) = rest"
  by (induction l) (auto simp: skip_to_newline_def)

text \<open>
  A line of 1023 characters or more is dropped whole when its 1023rd character is not
  white space.
\<close>

lemma long_line_skipped:
  assumes "1023 \<le> length l" "CHR ''\<newline>'' \<notin> set l" "CHR 0x00 \<notin> set (take 1023 l)"
    and "\<not> isspace (l ! 1022)"
  shows "config_parse_loop (l @ CHR ''\<newline>'' # rest) st = config_parse_loop rest st"
proof -
  let ?a = "take 1023 l" and ?b = "drop 1023 l"
  from assms(1) have len: "length ?a = 1023" by simp
  from assms(2) have nl: "CHR ''\<newline>'' \<notin> set ?a" "CHR ''\<newline>'' \<notin> set ?b"
    by (auto dest: in_set_takeD in_set_dropD)
  from len have ne: "?a \<noteq> []" by auto
  have "last ?a = ?a ! 1022"
    using len ne by (simp add: last_conv_nth)
  also have "\<dots> = l ! 1022" by simp
  finally have "\<not> isspace (last ?a)" using assms(4) by simp
  from trim_buffer_full [OF ne this] len have full: "length (trim_buffer ?a) = 1023" by simp
  have "config_parse_loop (?a @ (?b @ CHR ''\<newline>'' # rest)) st =
        config_parse_loop (skip_to_newline (?b @ CHR ''\<newline>'' # rest)) st"
    using config_parse_loop_full_buffer [OF len nl(1) assms(3)] full by simp
  also have "\<dots> = config_parse_loop rest st"
    using nl(2) by (simp add: skip_to_newline_line)
  finally have "config_parse_loop ((?a @ ?b) @ CHR ''\<newline>'' # rest) st =
      config_parse_loop rest st"
    by (simp only: append_assoc)
  then show ?thesis by (simp only: append_take_drop_id)
qed

lemma oversize_lines:
  "parsed_lines (''k = v'' @ replicate 1018 (CHR '' '') @ ''x = y\<newline>'') = [''k = v'', ''x = y'']"
proof -
  let ?l = "''k = v'' @ replicate 1018 (CHR '' '')"
  have l: "length ?l = 1023" "CHR ''\<newline>'' \<notin> set ?l" "CHR 0x00 \<notin> set ?l"
    by simp_all
  have t: "trim ?l = ''k = v''"
    using trim_append_spaces [OF all_spaces, of "''k = v''" 1018]
    by (simp add: trim_def isspace_def)
  have b: "trim_buffer ?l = ''k = v''"
    using t by (simp add: trim_buffer_def isspace_def)
  have s: "short_line ''x = y''"
    by (simp add: line_defs)
  have "parsed_lines (?l @ ''x = y\<newline>'') = ''k = v'' # parsed_lines ''x = y\<newline>''"
    using parsed_lines_full_buffer [OF l, of "''x = y\<newline>''"]
    by (simp only: t b) simp
  also have "parsed_lines ''x = y\<newline>'' = [''x = y'']"
    using parsed_lines_short_line [OF s, of "[]"]
    by (simp add: parsed_lines_eof trim_def isspace_def)
  finally show ?thesis by simp
qed

text \<open>
  C8 (what the code does). The test \<open>strlen(line) == 1023\<close> is made after \<open>trim\<close> has cut
  the trailing white space off the buffer. A line of 1028 characters whose first 1023
  characters end in white space passes the test: the parser takes its first part as a line
  of its own and the rest as another, and here both become entries. A line of exactly 1023
  characters that ends in a character other than white space is dropped.
\<close>

theorem oversize_line_yields_entries:
  "length (''k = v'' @ replicate 1018 (CHR '' '') @ ''x = y'') = 1028
   \<and> parsed_lines (''k = v'' @ replicate 1018 (CHR '' '') @ ''x = y\<newline>'') =
       [''k = v'', ''x = y'']
   \<and> config_parse dflt (''k = v'' @ replicate 1018 (CHR '' '') @ ''x = y\<newline>'') config_new_empty =
       \<lparr>sections = [\<lparr>name = dflt,
          entries = [\<lparr>key = ''k'', value = ''v''\<rparr>, \<lparr>key = ''x'', value = ''y''\<rparr>]\<rparr>]\<rparr>
   \<and> length (''k = '' @ replicate 1019 (CHR ''v'')) = 1023
   \<and> config_parse dflt (''k = '' @ replicate 1019 (CHR ''v'') @ ''\<newline>'') config_new_empty =
       config_new_empty"
proof -
  let ?st0 = "\<lparr>cur_config = config_new_empty, cur_section = dflt, skip_entries = False\<rparr>"
  let ?l = "''k = v'' @ replicate 1018 (CHR '' '')"
  have l: "length ?l = 1023" "CHR ''\<newline>'' \<notin> set ?l" "CHR 0x00 \<notin> set ?l"
    by simp_all
  have t: "trim ?l = ''k = v''"
    using trim_append_spaces [OF all_spaces, of "''k = v''" 1018]
    by (simp add: trim_def isspace_def)
  have b: "trim_buffer ?l = ''k = v''"
    using t by (simp add: trim_buffer_def isspace_def)
  have s: "short_line ''x = y''"
    by (simp add: line_defs)
  have "config_parse_loop (?l @ ''x = y\<newline>'') ?st0 =
        config_parse_loop ''x = y\<newline>'' (parse_line ''k = v'' ?st0)"
    using config_parse_loop_full_buffer [OF l, of "''x = y\<newline>''" ?st0]
    by (simp only: t b) simp
  also have "\<dots> = parse_line ''x = y'' (parse_line ''k = v'' ?st0)"
    using config_parse_loop_short_line [OF s, of "[]" "parse_line ''k = v'' ?st0"]
    by (simp add: config_parse_loop_eof trim_def isspace_def)
  finally have 1: "config_parse dflt (''k = v'' @ replicate 1018 (CHR '' '') @ ''x = y\<newline>'')
      config_new_empty =
       \<lparr>sections = [\<lparr>name = dflt,
          entries = [\<lparr>key = ''k'', value = ''v''\<rparr>, \<lparr>key = ''x'', value = ''y''\<rparr>]\<rparr>]\<rparr>"
    by (simp add: config_parse_def parse_line_def line_defs split_at_equals_def
        config_set_string_def section_find_def config_new_empty_def section_new_def entry_new_def
        value_no_newline_def)
  let ?m = "''k = '' @ replicate 1019 (CHR ''v'')"
  have m: "length ?m = 1023" "CHR ''\<newline>'' \<notin> set ?m" "CHR 0x00 \<notin> set ?m"
    by simp_all
  have "dropWhile isspace (replicate 1019 (CHR ''v'') @ '' = k'') = replicate 1019 (CHR ''v'') @ '' = k''"
    by (rule dropWhile_replicate_append) (simp_all add: isspace_def)
  then have t2: "trim ?m = ?m"
    by (simp add: trim_def isspace_def)
  have b2: "trim_buffer ?m = ?m"
    using t2 by (simp add: trim_buffer_def isspace_def)
  have "config_parse_loop (?m @ ''\<newline>'') ?st0 = config_parse_loop (skip_to_newline ''\<newline>'') ?st0"
    using config_parse_loop_full_buffer [OF m, of "''\<newline>''" ?st0]
    by (simp only: b2 m(1)) simp
  then have 2: "config_parse dflt (''k = '' @ replicate 1019 (CHR ''v'') @ ''\<newline>'') config_new_empty =
       config_new_empty"
    by (simp add: config_parse_def skip_to_newline_def config_parse_loop_eof)
  from 1 2 oversize_lines show ?thesis by simp
qed

end
